theory Spec2Isabelle
  imports Main "HOL-Library.Word" "HOL-Library.Monad_Syntax"
begin

section \<open>The C heap and the library calls the manager relies on\<close>

text \<open>
  Pointers are addresses, with \<open>0\<close> as the null pointer. The heap maps every live
  address to the object stored there: a raw block handed out by the allocator, a
  \<^verbatim>\<open>struct memory_address\<close> or a \<^verbatim>\<open>struct memory_manager\<close>. The value \<open>int\<close> of C
  is a 32-bit word (\<open>+\<close> wraps, \<open>sint\<close> reads it); \<^verbatim>\<open>size_t\<close> values are only
  passed on, never computed with, and are natural numbers.

  Every operation returns an \<open>option\<close>: \<open>None\<close> stands for a call to which C gives no
  outcome (a null or dangling pointer is dereferenced, a pointer is freed twice) or
  which never returns (a loop that walks a cyclic chain).
\<close>

type_synonym ptr = nat
type_synonym c_int = "32 word"
type_synonym size_t = nat

abbreviation NULL :: ptr where
  "NULL \<equiv> 0"

text \<open>\<^verbatim>\<open>struct memory_address { void *addr; struct memory_address *next; }\<close>\<close>

record memory_address =
  addr :: ptr
  "next" :: ptr

text \<open>
  \<^verbatim>\<open>struct memory_manager\<close>. Its three function pointers are written once, by
  \<open>init_mem_manager\<close>, to \<open>mm_add\<close>, \<open>mm_free\<close> and \<open>mm_free_all\<close>; a call through
  one of them reads the manager (\<open>manager_at\<close>) and then calls that function.
\<close>

record memory_manager =
  head :: ptr

datatype obj = Block | Node memory_address | Manager memory_manager

text \<open>
  The program state: the heap, \<^verbatim>\<open>errno\<close>, what \<open>alloc_err\<close> has printed on the
  error stream (one entry for each call: file, function, line, error code), and the
  non-null pointers passed to \<^verbatim>\<open>free\<close> so far, oldest first.
\<close>

record state =
  heap :: "ptr \<Rightarrow> obj option"
  errno :: c_int
  stderr :: "(string \<times> string \<times> size_t \<times> c_int) list"
  frees :: "ptr list"

text \<open>
  The allocator is outside the program, so each call of \<^verbatim>\<open>malloc\<close>, \<^verbatim>\<open>calloc\<close> or
  \<^verbatim>\<open>realloc\<close> takes the allocator's answer as an argument: the pointer it returns
  and the value it leaves in \<^verbatim>\<open>errno\<close> when that pointer is null (a call that
  succeeds leaves \<^verbatim>\<open>errno\<close> alone). An answer naming an address that is still live is
  one no allocator gives. The sizes asked for do not matter to the model; a request
  that \<^verbatim>\<open>calloc\<close> cannot serve because \<open>count * sz\<close> overflows is a null answer.
\<close>

type_synonym answer = "ptr \<times> c_int"

definition malloc :: "answer \<Rightarrow> size_t \<Rightarrow> state \<Rightarrow> (ptr \<times> state) option" where
  "malloc a sz s =
     (case a of (r, e) \<Rightarrow>
        if r = NULL then Some (NULL, s\<lparr>errno := e\<rparr>)
        else if heap s r \<noteq> None then None
        else Some (r, s\<lparr>heap := (heap s)(r \<mapsto> Block)\<rparr>))"

definition calloc :: "answer \<Rightarrow> size_t \<Rightarrow> size_t \<Rightarrow> state \<Rightarrow> (ptr \<times> state) option" where
  "calloc a count sz s =
     (case a of (r, e) \<Rightarrow>
        if r = NULL then Some (NULL, s\<lparr>errno := e\<rparr>)
        else if heap s r \<noteq> None then None
        else Some (r, s\<lparr>heap := (heap s)(r \<mapsto> Block)\<rparr>))"

text \<open>
  \<^verbatim>\<open>realloc\<close>: with a null pointer it is \<^verbatim>\<open>malloc\<close>; on success the block either
  stays where it is or moves to a fresh address; on failure a null pointer comes back
  and the old block stays as it is. For a request of size 0 the C standard leaves to the
  implementation whether the old block has been deallocated when a null pointer comes
  back: \<open>dealloc\<close> says which (glibc deallocates).
\<close>

definition realloc :: "answer \<Rightarrow> bool \<Rightarrow> ptr \<Rightarrow> size_t \<Rightarrow> state \<Rightarrow> (ptr \<times> state) option" where
  "realloc a dealloc p sz s =
     (case a of (r, e) \<Rightarrow>
        if p = NULL then malloc a sz s
        else (case heap s p of
                None \<Rightarrow> None
              | Some ob \<Rightarrow>
                  if r = NULL then
                    (if sz = 0 \<and> dealloc
                     then Some (NULL, s\<lparr>heap := (heap s)(p := None), errno := e\<rparr>)
                     else Some (NULL, s\<lparr>errno := e\<rparr>))
                  else if r = p then Some (p, s)
                  else if heap s r \<noteq> None then None
                  else Some (r, s\<lparr>heap := (heap s)(p := None, r \<mapsto> ob)\<rparr>)))"

definition free :: "ptr \<Rightarrow> state \<Rightarrow> state option" where
  "free p s =
     (if p = NULL then Some s
      else if heap s p = None then None
      else Some (s\<lparr>heap := (heap s)(p := None), frees := frees s @ [p]\<rparr>))"

text \<open>Reading a struct through a pointer; \<open>None\<close> when no such struct lives there.\<close>

definition node_at :: "state \<Rightarrow> ptr \<Rightarrow> memory_address option" where
  "node_at s p =
     (if p = NULL then None
      else case heap s p of Some (Node n) \<Rightarrow> Some n | _ \<Rightarrow> None)"

definition manager_at :: "state \<Rightarrow> ptr \<Rightarrow> memory_manager option" where
  "manager_at s p =
     (if p = NULL then None
      else case heap s p of Some (Manager m) \<Rightarrow> Some m | _ \<Rightarrow> None)"

definition store :: "ptr \<Rightarrow> obj \<Rightarrow> state \<Rightarrow> state" where
  "store p ob s = s\<lparr>heap := (heap s)(p \<mapsto> ob)\<rparr>"

section \<open>manager.c\<close>

text \<open>
  \<open>alloc_err\<close> prints one line built from its four arguments on the error stream
  (\<^verbatim>\<open>strerror\<close> and \<^verbatim>\<open>fprintf\<close> are taken to leave \<^verbatim>\<open>errno\<close> as it is).
\<close>

definition alloc_err :: "string \<Rightarrow> string \<Rightarrow> size_t \<Rightarrow> c_int \<Rightarrow> state \<Rightarrow> state" where
  "alloc_err file func line err_code s =
     s\<lparr>stderr := stderr s @ [(file, func, line, err_code)]\<rparr>"

text \<open>
  The sizes passed to \<^verbatim>\<open>malloc\<close> below stand for
  \<^verbatim>\<open>sizeof(struct memory_manager)\<close> and \<^verbatim>\<open>sizeof(struct memory_address)\<close> (four and
  two pointers of eight bytes).
\<close>

definition init_mem_manager :: "answer \<Rightarrow> state \<Rightarrow> (ptr \<times> state) option" where
  "init_mem_manager a s =
     do {
       (mm, s1) \<leftarrow> malloc a 32 s;
       if mm \<noteq> NULL then Some (mm, store mm (Manager \<lparr>head = NULL\<rparr>) s1)
       else Some (mm, s1)
     }"

text \<open>The loop of \<open>mm_add\<close>: \<^verbatim>\<open>while (ma_cur->next != NULL) ma_cur = ma_cur->next;\<close>\<close>

partial_function (option) mm_add_loop :: "ptr \<Rightarrow> state \<Rightarrow> ptr option" where
  "mm_add_loop ma_cur s =
     do {
       n \<leftarrow> node_at s ma_cur;
       if next n \<noteq> NULL then mm_add_loop (next n) s else Some ma_cur
     }"

definition mm_add :: "answer \<Rightarrow> ptr \<Rightarrow> ptr \<Rightarrow> state \<Rightarrow> (ptr \<times> state) option" where
  "mm_add a mem_manager mem s =
     do {
       (ma, s1) \<leftarrow> malloc a 16 s;
       if ma = NULL then Some (NULL, s1)
       else do {
         let s2 = store ma (Node \<lparr>addr = mem, next = NULL\<rparr>) s1;
         mg \<leftarrow> manager_at s2 mem_manager;
         if head mg = NULL then do {
           let s3 = store mem_manager (Manager (mg\<lparr>head := ma\<rparr>)) s2;
           n \<leftarrow> node_at s3 ma;
           Some (addr n, s3)
         }
         else do {
           ma_cur \<leftarrow> mm_add_loop (head mg) s2;
           c \<leftarrow> node_at s2 ma_cur;
           let s3 = store ma_cur (Node (c\<lparr>next := ma\<rparr>)) s2;
           n \<leftarrow> node_at s3 ma;
           Some (addr n, s3)
         }
       }
     }"

text \<open>
  The loop of \<open>mm_free\<close>:
  \<^verbatim>\<open>while (ma && ma->addr != mem) { ma_prev = ma; ma = ma->next; }\<close>
  It returns \<open>ma\<close> and \<open>ma_prev\<close>.
\<close>

partial_function (option) mm_free_loop :: "ptr \<Rightarrow> ptr \<Rightarrow> ptr \<Rightarrow> state \<Rightarrow> (ptr \<times> ptr) option" where
  "mm_free_loop mem ma ma_prev s =
     (if ma = NULL then Some (ma, ma_prev)
      else do {
        n \<leftarrow> node_at s ma;
        if addr n \<noteq> mem then mm_free_loop mem (next n) ma s else Some (ma, ma_prev)
      })"

definition mm_free :: "ptr \<Rightarrow> ptr \<Rightarrow> state \<Rightarrow> (c_int \<times> state) option" where
  "mm_free mem_manager mem s =
     do {
       mg \<leftarrow> manager_at s mem_manager;
       (ma, ma_prev) \<leftarrow> mm_free_loop mem (head mg) NULL s;
       if ma = NULL then Some (- 1, s)
       else do {
         n \<leftarrow> node_at s ma;
         s1 \<leftarrow> (if ma = head mg
                then Some (store mem_manager (Manager (mg\<lparr>head := next n\<rparr>)) s)
                else do {
                  p \<leftarrow> node_at s ma_prev;
                  Some (store ma_prev (Node (p\<lparr>next := next n\<rparr>)) s)
                });
         n1 \<leftarrow> node_at s1 ma;
         s2 \<leftarrow> free (addr n1) s1;
         s3 \<leftarrow> free ma s2;
         Some (0, s3)
       }
     }"

partial_function (option) mm_free_recurse :: "ptr \<Rightarrow> state \<Rightarrow> (c_int \<times> state) option" where
  "mm_free_recurse ma s =
     (if ma = NULL then Some (0, s)
      else do {
        n \<leftarrow> node_at s ma;
        (r, s1) \<leftarrow> mm_free_recurse (next n) s;
        let m_freed = 1 + r;
        n1 \<leftarrow> node_at s1 ma;
        s2 \<leftarrow> free (addr n1) s1;
        s3 \<leftarrow> free ma s2;
        Some (m_freed, s3)
      })"

definition mm_free_all :: "ptr \<Rightarrow> state \<Rightarrow> (c_int \<times> state) option" where
  "mm_free_all mem_manager s =
     do {
       mg \<leftarrow> manager_at s mem_manager;
       (m_freed, s1) \<leftarrow> mm_free_recurse (head mg) s;
       Some (m_freed, s1)
     }"

definition free_mem_manager :: "ptr \<Rightarrow> state \<Rightarrow> (c_int \<times> state) option" where
  "free_mem_manager mem_manager s =
     (if mem_manager = NULL then Some (- 1, s)
      else do {
        _ \<leftarrow> manager_at s mem_manager;
        (_, s1) \<leftarrow> mm_free_all mem_manager s;
        s2 \<leftarrow> free mem_manager s1;
        Some (0, s2)
      })"

text \<open>The loop of \<open>mm_find_in_list\<close>: \<^verbatim>\<open>while (ma && ma->addr != mem) ma = ma->next;\<close>\<close>

partial_function (option) mm_find_loop :: "ptr \<Rightarrow> ptr \<Rightarrow> state \<Rightarrow> ptr option" where
  "mm_find_loop mem ma s =
     (if ma = NULL then Some ma
      else do {
        n \<leftarrow> node_at s ma;
        if addr n \<noteq> mem then mm_find_loop mem (next n) s else Some ma
      })"

definition mm_find_in_list :: "ptr \<Rightarrow> ptr \<Rightarrow> state \<Rightarrow> ptr option" where
  "mm_find_in_list mem_manager mem s =
     do {
       mg \<leftarrow> manager_at s mem_manager;
       mm_find_loop mem (head mg) s
     }"

text \<open>
  The three allocation calls. \<open>a1\<close> is the allocator's answer for the block, \<open>a2\<close> its
  answer for the \<^verbatim>\<open>malloc\<close> inside \<open>mm_add\<close>, should that call be reached; \<open>mm_realloc\<close>
  takes the answer and the \<open>dealloc\<close> of its \<^verbatim>\<open>realloc\<close>.
\<close>

definition mm_malloc ::
  "answer \<Rightarrow> answer \<Rightarrow> size_t \<Rightarrow> ptr \<Rightarrow> string \<Rightarrow> string \<Rightarrow> size_t \<Rightarrow> state \<Rightarrow> (ptr \<times> state) option" where
  "mm_malloc a1 a2 sz mem_manager file func line s =
     do {
       (mem, s1) \<leftarrow> malloc a1 sz s;
       if mem = NULL then Some (NULL, alloc_err file func line (errno s1) s1)
       else if mem_manager \<noteq> NULL then do {
         _ \<leftarrow> manager_at s1 mem_manager;
         (_, s2) \<leftarrow> mm_add a2 mem_manager mem s1;
         Some (mem, s2)
       }
       else Some (mem, s1)
     }"

definition mm_calloc ::
  "answer \<Rightarrow> answer \<Rightarrow> size_t \<Rightarrow> size_t \<Rightarrow> ptr \<Rightarrow> string \<Rightarrow> string \<Rightarrow> size_t \<Rightarrow> state \<Rightarrow> (ptr \<times> state) option" where
  "mm_calloc a1 a2 count sz mem_manager file func line s =
     do {
       (mem, s1) \<leftarrow> calloc a1 count sz s;
       if mem = NULL then Some (NULL, alloc_err file func line (errno s1) s1)
       else if mem_manager \<noteq> NULL then do {
         _ \<leftarrow> manager_at s1 mem_manager;
         (_, s2) \<leftarrow> mm_add a2 mem_manager mem s1;
         Some (mem, s2)
       }
       else Some (mem, s1)
     }"

definition mm_realloc ::
  "answer \<Rightarrow> bool \<Rightarrow> ptr \<Rightarrow> size_t \<Rightarrow> ptr \<Rightarrow> string \<Rightarrow> string \<Rightarrow> size_t \<Rightarrow> state \<Rightarrow>
     (ptr \<times> state) option" where
  "mm_realloc a dealloc p sz mem_manager file func line s =
     do {
       (mem, s1) \<leftarrow> realloc a dealloc p sz s;
       if mem = NULL then Some (NULL, alloc_err file func line (errno s1) s1)
       else if mem_manager \<noteq> NULL then do {
         ma \<leftarrow> mm_find_in_list mem_manager p s1;
         if ma \<noteq> NULL then do {
           n \<leftarrow> node_at s1 ma;
           Some (mem, store ma (Node (n\<lparr>addr := mem\<rparr>)) s1)
         }
         else Some (mem, s1)
       }
       else Some (mem, s1)
     }"

text \<open>
  A caller that inserts one address after another, with no release in between. Each
  insert is given with the allocator's answer for its node; the value \<open>mm_add\<close> returns
  is dropped.
\<close>

fun mm_add_all :: "(answer \<times> ptr) list \<Rightarrow> ptr \<Rightarrow> state \<Rightarrow> state option" where
  "mm_add_all [] mem_manager s = Some s"
| "mm_add_all ((a, mem) # rest) mem_manager s =
     do {
       (_, s1) \<leftarrow> mm_add a mem_manager mem s;
       mm_add_all rest mem_manager s1
     }"

section \<open>The registry as a sequence of records\<close>

text \<open>
  \<open>list_at h p ps\<close>: the chain of nodes that starts at \<open>p\<close> in the heap \<open>h\<close> ends
  with a null link and consists of exactly the records \<open>ps\<close>, each given as the node's
  own address and the block address it stores.
\<close>

fun list_at :: "(ptr \<Rightarrow> obj option) \<Rightarrow> ptr \<Rightarrow> (ptr \<times> ptr) list \<Rightarrow> bool" where
  "list_at h p [] = (p = NULL)"
| "list_at h p ((n, a) # ps) =
     (p = n \<and> n \<noteq> NULL \<and>
      (case h n of Some (Node nd) \<Rightarrow> addr nd = a \<and> list_at h (next nd) ps | _ \<Rightarrow> False))"

definition registry :: "state \<Rightarrow> ptr \<Rightarrow> (ptr \<times> ptr) list \<Rightarrow> bool" where
  "registry s m ps =
     (case manager_at s m of None \<Rightarrow> False | Some mg \<Rightarrow> list_at (heap s) (head mg) ps)"

text \<open>
  What tracked allocations keep true of the records (and \<open>mm_add\<close> of an address that
  is already stored does not): every stored address is a live block, and no two records
  store the same address.
\<close>

definition tracked :: "state \<Rightarrow> (ptr \<times> ptr) list \<Rightarrow> bool" where
  "tracked s ps =
     (distinct (map snd ps) \<and> list_all (\<lambda>(n, a). a \<noteq> NULL \<and> heap s a = Some Block) ps)"

section \<open>Facts about chains of records\<close>

lemma node_at_Some:
  "node_at s p = Some nd \<longleftrightarrow> p \<noteq> NULL \<and> heap s p = Some (Node nd)"
  by (auto simp: node_at_def split: option.splits obj.splits)

lemma manager_at_Some:
  "manager_at s p = Some mg \<longleftrightarrow> p \<noteq> NULL \<and> heap s p = Some (Manager mg)"
  by (auto simp: manager_at_def split: option.splits obj.splits)

lemma list_at_Cons:
  "list_at h p ((n, a) # ps) \<longleftrightarrow>
     p = n \<and> n \<noteq> NULL \<and> (\<exists>q. h n = Some (Node \<lparr>addr = a, next = q\<rparr>) \<and> list_at h q ps)"
  apply (auto simp: list_at.simps(2) split: option.splits obj.splits)
  subgoal for nd by (cases nd) auto
  done

declare list_at.simps(2) [simp del]

lemma list_at_NULL [simp]: "list_at h NULL ps \<longleftrightarrow> ps = []"
  by (cases ps) (auto simp: list_at_Cons)

lemma list_at_frame:
  "x \<notin> fst ` set ps \<Longrightarrow> list_at (h(x := v)) p ps = list_at h p ps"
  by (induction ps arbitrary: p) (auto simp: list_at_Cons)

lemma list_at_unique: "list_at h p ps \<Longrightarrow> list_at h p qs \<Longrightarrow> ps = qs"
proof (induction ps arbitrary: p qs)
  case Nil
  then show ?case by simp
next
  case (Cons x ps)
  obtain n a where x: "x = (n, a)" by (cases x)
  from Cons.prems(1) x obtain q where
    p: "p = n" "n \<noteq> NULL" and hn: "h n = Some (Node \<lparr>addr = a, next = q\<rparr>)" and tl: "list_at h q ps"
    by (auto simp: list_at_Cons)
  from Cons.prems(2) p obtain y qs' where qs: "qs = y # qs'"
    by (cases qs) auto
  obtain n' a' where y: "y = (n', a')" by (cases y)
  from Cons.prems(2) qs y hn p have "n' = n" "a' = a" "list_at h q qs'"
    by (auto simp: list_at_Cons)
  with Cons.IH [OF tl] x y qs show ?case by simp
qed

lemma list_at_suffix: "list_at h p (xs @ ys) \<Longrightarrow> \<exists>q. list_at h q ys"
proof (induction xs arbitrary: p)
  case Nil
  then show ?case by auto
next
  case (Cons x xs)
  obtain n a where "x = (n, a)" by (cases x)
  with Cons.prems obtain q where "list_at h q (xs @ ys)"
    by (auto simp: list_at_Cons)
  then show ?case by (rule Cons.IH)
qed

lemma list_at_distinct: "list_at h p ps \<Longrightarrow> distinct (map fst ps)"
proof (induction ps arbitrary: p)
  case Nil
  then show ?case by simp
next
  case (Cons x ps)
  obtain n a where x: "x = (n, a)" by (cases x)
  from Cons.prems x obtain q where
    p: "p = n" "n \<noteq> NULL" and hn: "h n = Some (Node \<lparr>addr = a, next = q\<rparr>)" and tl: "list_at h q ps"
    by (auto simp: list_at_Cons)
  have "n \<notin> fst ` set ps"
  proof
    assume "n \<in> fst ` set ps"
    then obtain a' where "(n, a') \<in> set ps" by auto
    then obtain xs ys where split: "ps = xs @ (n, a') # ys"
      by (auto simp: in_set_conv_decomp)
    with tl obtain q' where "list_at h q' ((n, a') # ys)"
      using list_at_suffix by blast
    with hn have "list_at h q ys" by (auto simp: list_at_Cons)
    with tl have "ps = ys" by (rule list_at_unique)
    with split show False by simp
  qed
  with Cons.IH [OF tl] x show ?case by simp
qed

lemma mm_add_loop_last:
  "list_at (heap s) p ps \<Longrightarrow> ps \<noteq> [] \<Longrightarrow> mm_add_loop p s = Some (fst (last ps))"
proof (induction ps arbitrary: p)
  case Nil
  then show ?case by simp
next
  case (Cons x ps)
  obtain n a where x: "x = (n, a)" by (cases x)
  from Cons.prems x obtain q where
    p: "p = n" "n \<noteq> NULL" and hn: "heap s n = Some (Node \<lparr>addr = a, next = q\<rparr>)"
    and tl: "list_at (heap s) q ps"
    by (auto simp: list_at_Cons)
  have nd: "node_at s n = Some \<lparr>addr = a, next = q\<rparr>"
    using p hn by (simp add: node_at_Some)
  show ?case
  proof (cases ps)
    case Nil
    with tl have "q = NULL" by simp
    with nd p x Nil show ?thesis
      by (subst mm_add_loop.simps) simp
  next
    case (Cons y ys)
    with tl have "q \<noteq> NULL" by (cases y) (auto simp: list_at_Cons)
    moreover have "mm_add_loop q s = Some (fst (last ps))"
      using Cons.IH [OF tl] Cons by simp
    ultimately show ?thesis using nd p x Cons
      by (subst mm_add_loop.simps) simp
  qed
qed

section \<open>Insertion\<close>

lemma list_at_member:
  "list_at h p ps \<Longrightarrow> (n, a) \<in> set ps \<Longrightarrow>
     n \<noteq> NULL \<and> (\<exists>q. h n = Some (Node \<lparr>addr = a, next = q\<rparr>))"
proof (induction ps arbitrary: p)
  case Nil
  then show ?case by simp
next
  case (Cons x ps)
  obtain n' a' where x: "x = (n', a')" by (cases x)
  with Cons.prems(1) obtain q where
    hd: "n' \<noteq> NULL" "h n' = Some (Node \<lparr>addr = a', next = q\<rparr>)" and tl: "list_at h q ps"
    by (auto simp: list_at_Cons)
  show ?case
  proof (cases "(n, a) = x")
    case True
    with x hd show ?thesis by auto
  next
    case False
    with Cons.prems(2) have "(n, a) \<in> set ps" by simp
    with Cons.IH [OF tl] show ?thesis .
  qed
qed

lemma list_at_nodes_live:
  "list_at h p ps \<Longrightarrow> h r = None \<Longrightarrow> r \<notin> fst ` set ps"
  using list_at_member by fastforce

lemma list_at_last:
  "list_at h p ps \<Longrightarrow> ps \<noteq> [] \<Longrightarrow>
     h (fst (last ps)) = Some (Node \<lparr>addr = snd (last ps), next = NULL\<rparr>)"
proof (induction ps arbitrary: p)
  case Nil
  then show ?case by simp
next
  case (Cons x ps)
  obtain n a where x: "x = (n, a)" by (cases x)
  with Cons.prems(1) obtain q where
    hn: "h n = Some (Node \<lparr>addr = a, next = q\<rparr>)" and tl: "list_at h q ps"
    by (auto simp: list_at_Cons)
  show ?case
  proof (cases ps)
    case Nil
    with tl hn x show ?thesis by simp
  next
    case (Cons y ys)
    with Cons.IH [OF tl] show ?thesis by simp
  qed
qed

lemma list_at_snoc:
  "list_at h p ps \<Longrightarrow> ps \<noteq> [] \<Longrightarrow> r \<noteq> NULL \<Longrightarrow> r \<notin> fst ` set ps \<Longrightarrow>
   h r = Some (Node \<lparr>addr = mem, next = NULL\<rparr>) \<Longrightarrow>
   list_at (h(fst (last ps) \<mapsto> Node \<lparr>addr = snd (last ps), next = r\<rparr>)) p (ps @ [(r, mem)])"
proof (induction ps arbitrary: p)
  case Nil
  then show ?case by simp
next
  case (Cons x ps)
  obtain n a where x: "x = (n, a)" by (cases x)
  with Cons.prems(1) obtain q where
    p: "p = n" "n \<noteq> NULL" and hn: "h n = Some (Node \<lparr>addr = a, next = q\<rparr>)"
    and tl: "list_at h q ps"
    by (auto simp: list_at_Cons)
  from Cons.prems(4) x have rn: "r \<noteq> n" and rps: "r \<notin> fst ` set ps" by auto
  show ?case
  proof (cases "ps = []")
    case True
    with p hn rn x Cons.prems(3,5) tl show ?thesis
      by (simp add: list_at_Cons)
  next
    case False
    have "distinct (map fst (x # ps))"
      using Cons.prems(1) by (rule list_at_distinct)
    with x have "n \<notin> fst ` set ps" by simp
    moreover have "last ps \<in> set ps" using False by simp
    ultimately have ln: "fst (last ps) \<noteq> n" by force
    define h' where "h' = h(fst (last ps) \<mapsto> Node \<lparr>addr = snd (last ps), next = r\<rparr>)"
    have "list_at h' q (ps @ [(r, mem)])"
      unfolding h'_def using tl False Cons.prems(3) rps Cons.prems(5) by (rule Cons.IH)
    moreover have "h' n = Some (Node \<lparr>addr = a, next = q\<rparr>)"
      using hn ln by (simp add: h'_def)
    ultimately have "list_at h' p ((n, a) # ps @ [(r, mem)])"
      using p by (simp add: list_at_Cons)
    moreover have "last (x # ps) = last ps"
      using False by simp
    ultimately show ?thesis
      unfolding h'_def x by (simp only: append_Cons)
  qed
qed

lemma mm_add_ok:
  assumes reg: "registry s m ps" and r: "r \<noteq> NULL" "heap s r = None"
  shows "\<exists>s'. mm_add (r, e) m mem s = Some (mem, s') \<and>
           registry s' m (ps @ [(r, mem)]) \<and>
           errno s' = errno s \<and> stderr s' = stderr s \<and> frees s' = frees s \<and>
           (\<forall>x. x \<noteq> r \<longrightarrow> x \<noteq> m \<longrightarrow> x \<notin> fst ` set ps \<longrightarrow> heap s' x = heap s x)"
proof -
  from reg obtain mg where mg: "m \<noteq> NULL" "heap s m = Some (Manager mg)"
    and lst: "list_at (heap s) (head mg) ps"
    by (auto simp: registry_def manager_at_Some split: option.splits)
  from mg r have mr: "m \<noteq> r" by auto
  define s2 where "s2 = s\<lparr>heap := (heap s)(r \<mapsto> Node \<lparr>addr = mem, next = NULL\<rparr>)\<rparr>"
  have alloc: "malloc (r, e) 16 s = Some (r, s\<lparr>heap := (heap s)(r \<mapsto> Block)\<rparr>)"
    using r by (simp add: malloc_def)
  have s2: "store r (Node \<lparr>addr = mem, next = NULL\<rparr>) (s\<lparr>heap := (heap s)(r \<mapsto> Block)\<rparr>) = s2"
    by (simp add: store_def s2_def)
  have mg2: "manager_at s2 m = Some mg"
    using mg mr by (simp add: manager_at_Some s2_def)
  have rfresh: "r \<notin> fst ` set ps"
    using lst r(2) by (rule list_at_nodes_live)
  have lst2: "list_at (heap s2) (head mg) ps"
    using lst rfresh by (simp add: s2_def list_at_frame)
  show ?thesis
  proof (cases "head mg = NULL")
    case True
    with lst have ps: "ps = []" by simp
    define s3 where "s3 = store m (Manager (mg\<lparr>head := r\<rparr>)) s2"
    have n3: "node_at s3 r = Some \<lparr>addr = mem, next = NULL\<rparr>"
      using r mr by (simp add: node_at_Some s3_def s2_def store_def)
    have run: "mm_add (r, e) m mem s = Some (mem, s3)"
      using r alloc s2 mg2 True n3 by (simp add: mm_add_def s3_def)
    have "registry s3 m [(r, mem)]"
      using r mr mg by (simp add: registry_def manager_at_def s3_def s2_def store_def list_at_Cons)
    with run ps show ?thesis
      by (auto simp: s3_def s2_def store_def)
  next
    case False
    with lst have ps: "ps \<noteq> []" by auto
    define l where "l = fst (last ps)"
    define c where "c = \<lparr>addr = snd (last ps), next = NULL\<rparr>"
    have "last ps \<in> set ps" using ps by simp
    then have lin: "l \<in> fst ` set ps" by (simp add: l_def)
    with rfresh have lr: "l \<noteq> r" by auto
    have lm: "l \<noteq> m"
      using list_at_member [OF lst, of l "snd (last ps)"] \<open>last ps \<in> set ps\<close> mg
      by (auto simp: l_def)
    have loop: "mm_add_loop (head mg) s2 = Some l"
      using lst2 ps by (simp add: mm_add_loop_last l_def)
    have hl: "heap s2 l = Some (Node c)"
      using list_at_last [OF lst2 ps] by (simp add: l_def c_def)
    have lnz: "l \<noteq> NULL"
      using list_at_member [OF lst, of l "snd (last ps)"] \<open>last ps \<in> set ps\<close>
      by (auto simp: l_def)
    have cl: "node_at s2 l = Some c"
      using hl lnz by (simp add: node_at_Some)
    define s3 where "s3 = store l (Node (c\<lparr>next := r\<rparr>)) s2"
    have n3: "node_at s3 r = Some \<lparr>addr = mem, next = NULL\<rparr>"
      using r lr by (simp add: node_at_Some s3_def s2_def store_def)
    have run: "mm_add (r, e) m mem s = Some (mem, s3)"
      using r alloc s2 mg2 False loop cl n3 by (simp add: mm_add_def s3_def)
    have "list_at ((heap s2)(l \<mapsto> Node \<lparr>addr = snd (last ps), next = r\<rparr>)) (head mg) (ps @ [(r, mem)])"
      unfolding l_def using lst2 ps r(1) rfresh
      by (rule list_at_snoc) (simp add: s2_def)
    then have "list_at (heap s3) (head mg) (ps @ [(r, mem)])"
      by (simp add: s3_def store_def c_def)
    moreover have "manager_at s3 m = Some mg"
      using mg mr lm by (simp add: manager_at_Some s3_def s2_def store_def)
    ultimately have "registry s3 m (ps @ [(r, mem)])"
      by (simp add: registry_def)
    with run lin show ?thesis
      by (auto simp: s3_def s2_def store_def)
  qed
qed

lemma mm_add_fail:
  "mm_add (NULL, e) m mem s = Some (NULL, s\<lparr>errno := e\<rparr>)"
  by (simp add: mm_add_def malloc_def)

text \<open>
  C6. In a registry whose records are \<open>ps\<close>, \<open>mm_add\<close> with a bookkeeping
  allocation that succeeds (the fresh node \<open>r\<close>) returns the address it was given and
  leaves the registry with the records \<open>ps\<close> followed by one new record for that
  address, so the earlier records keep their order and the length grows by one; no
  other object of the heap, nothing printed and nothing freed changes. When the
  bookkeeping allocation fails, and only then, \<open>mm_add\<close> returns null, and nothing but
  \<^verbatim>\<open>errno\<close> has changed.
\<close>

theorem mm_add_appends_one_record:
  assumes "registry s m ps" and "r = NULL \<or> heap s r = None"
  shows "(r \<noteq> NULL \<longrightarrow>
            (\<exists>s'. mm_add (r, e) m mem s = Some (mem, s') \<and>
                  registry s' m (ps @ [(r, mem)]) \<and>
                  length (ps @ [(r, mem)]) = length ps + 1 \<and>
                  errno s' = errno s \<and> stderr s' = stderr s \<and> frees s' = frees s \<and>
                  (\<forall>x. x \<noteq> r \<longrightarrow> x \<noteq> m \<longrightarrow> x \<notin> fst ` set ps \<longrightarrow> heap s' x = heap s x))) \<and>
         (r = NULL \<longrightarrow> mm_add (r, e) m mem s = Some (NULL, s\<lparr>errno := e\<rparr>))"
proof (cases "r = NULL")
  case True
  then show ?thesis by (simp add: mm_add_fail)
next
  case False
  with assms(2) have "heap s r = None" by simp
  with mm_add_ok [OF assms(1) False this, of e mem] False show ?thesis by simp
qed

theorem mm_add_appends_one_record_witness:
  "registry \<lparr>heap = [1 \<mapsto> Manager \<lparr>head = 2\<rparr>, 2 \<mapsto> Node \<lparr>addr = 10, next = NULL\<rparr>, 10 \<mapsto> Block],
              errno = 0, stderr = [], frees = []\<rparr> 1 [(2, 10)] \<and>
   (\<exists>s'. mm_add (3, 12) 1 11
           \<lparr>heap = [1 \<mapsto> Manager \<lparr>head = 2\<rparr>, 2 \<mapsto> Node \<lparr>addr = 10, next = NULL\<rparr>, 10 \<mapsto> Block],
            errno = 0, stderr = [], frees = []\<rparr> = Some (11, s') \<and>
         registry s' 1 [(2, 10), (3, 11)] \<and> heap s' 10 = Some Block) \<and>
   mm_add (NULL, 12) 1 11
      \<lparr>heap = [1 \<mapsto> Manager \<lparr>head = 2\<rparr>, 2 \<mapsto> Node \<lparr>addr = 10, next = NULL\<rparr>, 10 \<mapsto> Block],
       errno = 0, stderr = [], frees = []\<rparr> =
     Some (NULL, \<lparr>heap = [1 \<mapsto> Manager \<lparr>head = 2\<rparr>, 2 \<mapsto> Node \<lparr>addr = 10, next = NULL\<rparr>, 10 \<mapsto> Block],
                  errno = 12, stderr = [], frees = []\<rparr>)"
proof -
  let ?s = "\<lparr>heap = [1 \<mapsto> Manager \<lparr>head = 2\<rparr>, 2 \<mapsto> Node \<lparr>addr = 10, next = NULL\<rparr>, 10 \<mapsto> Block],
             errno = 0, stderr = [], frees = []\<rparr>"
  have reg: "registry ?s 1 [(2, 10)]"
    by (simp add: registry_def manager_at_def list_at_Cons)
  have ok: "(3::nat) = NULL \<or> heap ?s 3 = None" by simp
  have failing: "(NULL::nat) = NULL \<or> heap ?s NULL = None" by simp
  from mm_add_appends_one_record [OF reg ok, of 12 11]
       mm_add_appends_one_record [OF reg failing, of 12 11] reg
  show ?thesis by auto
qed

section \<open>Lookup and removal of one record\<close>

lemma list_at_split:
  assumes "list_at h p (xs @ (n, a) # ys)"
  shows "n \<noteq> NULL \<and> (\<exists>q. h n = Some (Node \<lparr>addr = a, next = q\<rparr>) \<and> list_at h q ys)"
proof -
  from assms obtain q where "list_at h q ((n, a) # ys)"
    using list_at_suffix by blast
  then show ?thesis by (auto simp: list_at_Cons)
qed

lemma mm_find_loop_absent:
  "list_at (heap s) p ps \<Longrightarrow> mem \<notin> snd ` set ps \<Longrightarrow> mm_find_loop mem p s = Some NULL"
proof (induction ps arbitrary: p)
  case Nil
  then show ?case by (subst mm_find_loop.simps) simp
next
  case (Cons x ps)
  obtain n a where x: "x = (n, a)" by (cases x)
  with Cons.prems(1) obtain q where
    p: "p = n" "n \<noteq> NULL" and hn: "heap s n = Some (Node \<lparr>addr = a, next = q\<rparr>)"
    and tl: "list_at (heap s) q ps"
    by (auto simp: list_at_Cons)
  from Cons.prems(2) x have "a \<noteq> mem" "mem \<notin> snd ` set ps" by auto
  with Cons.IH [OF tl] p hn show ?case
    by (subst mm_find_loop.simps) (simp add: node_at_def)
qed

lemma mm_find_loop_first:
  "list_at (heap s) p (xs @ (n, mem) # ys) \<Longrightarrow> mem \<notin> snd ` set xs \<Longrightarrow>
     mm_find_loop mem p s = Some n"
proof (induction xs arbitrary: p)
  case Nil
  then show ?case
    by (subst mm_find_loop.simps) (auto simp: list_at_Cons node_at_def)
next
  case (Cons x xs)
  obtain n' a where x: "x = (n', a)" by (cases x)
  with Cons.prems(1) obtain q where
    p: "p = n'" "n' \<noteq> NULL" and hn: "heap s n' = Some (Node \<lparr>addr = a, next = q\<rparr>)"
    and tl: "list_at (heap s) q (xs @ (n, mem) # ys)"
    by (auto simp: list_at_Cons)
  from Cons.prems(2) x have "a \<noteq> mem" "mem \<notin> snd ` set xs" by auto
  with Cons.IH [OF tl] p hn show ?case
    by (subst mm_find_loop.simps) (simp add: node_at_def)
qed

lemma mm_free_loop_absent:
  "list_at (heap s) p ps \<Longrightarrow> mem \<notin> snd ` set ps \<Longrightarrow>
     mm_free_loop mem p prev s = Some (NULL, if ps = [] then prev else fst (last ps))"
proof (induction ps arbitrary: p prev)
  case Nil
  then show ?case by (subst mm_free_loop.simps) simp
next
  case (Cons x ps)
  obtain n a where x: "x = (n, a)" by (cases x)
  with Cons.prems(1) obtain q where
    p: "p = n" "n \<noteq> NULL" and hn: "heap s n = Some (Node \<lparr>addr = a, next = q\<rparr>)"
    and tl: "list_at (heap s) q ps"
    by (auto simp: list_at_Cons)
  from Cons.prems(2) x have "a \<noteq> mem" "mem \<notin> snd ` set ps" by auto
  with Cons.IH [OF tl, of n] p hn x show ?case
    by (subst mm_free_loop.simps) (simp add: node_at_def)
qed

lemma mm_free_loop_first:
  "list_at (heap s) p (xs @ (n, mem) # ys) \<Longrightarrow> mem \<notin> snd ` set xs \<Longrightarrow>
     mm_free_loop mem p prev s = Some (n, if xs = [] then prev else fst (last xs))"
proof (induction xs arbitrary: p prev)
  case Nil
  then show ?case
    by (subst mm_free_loop.simps) (auto simp: list_at_Cons node_at_def)
next
  case (Cons x xs)
  obtain n' a where x: "x = (n', a)" by (cases x)
  with Cons.prems(1) obtain q where
    p: "p = n'" "n' \<noteq> NULL" and hn: "heap s n' = Some (Node \<lparr>addr = a, next = q\<rparr>)"
    and tl: "list_at (heap s) q (xs @ (n, mem) # ys)"
    by (auto simp: list_at_Cons)
  from Cons.prems(2) x have "a \<noteq> mem" "mem \<notin> snd ` set xs" by auto
  with Cons.IH [OF tl, of n'] p hn x show ?case
    by (subst mm_free_loop.simps) (simp add: node_at_def)
qed

lemma list_at_unlink:
  "list_at h p (xs @ (n, a) # ys) \<Longrightarrow> xs \<noteq> [] \<Longrightarrow> list_at h q ys \<Longrightarrow>
     list_at (h(fst (last xs) \<mapsto> Node \<lparr>addr = snd (last xs), next = q\<rparr>)) p (xs @ ys)"
proof (induction xs arbitrary: p)
  case Nil
  then show ?case by simp
next
  case (Cons x xs)
  obtain n' a' where x: "x = (n', a')" by (cases x)
  with Cons.prems(1) obtain q' where
    p: "p = n'" "n' \<noteq> NULL" and hn: "h n' = Some (Node \<lparr>addr = a', next = q'\<rparr>)"
    and tl: "list_at h q' (xs @ (n, a) # ys)"
    by (auto simp: list_at_Cons)
  have "distinct (map fst ((x # xs) @ (n, a) # ys))"
    using Cons.prems(1) by (rule list_at_distinct)
  with x have fresh: "n' \<notin> fst ` set xs" "n' \<notin> fst ` set ys" by auto
  show ?case
  proof (cases "xs = []")
    case True
    define h' where "h' = h(n' \<mapsto> Node \<lparr>addr = a', next = q\<rparr>)"
    have "list_at h' q ys"
      using Cons.prems(3) fresh(2) by (simp add: h'_def list_at_frame)
    moreover have "h' n' = Some (Node \<lparr>addr = a', next = q\<rparr>)"
      by (simp add: h'_def)
    ultimately have "list_at h' p ((n', a') # ys)"
      using p by (simp add: list_at_Cons)
    moreover have "last (x # xs) = (n', a')" "(x # xs) @ ys = (n', a') # ys"
      using x True by simp_all
    ultimately show ?thesis
      unfolding h'_def by (simp only: fst_conv snd_conv)
  next
    case False
    define h' where "h' = h(fst (last xs) \<mapsto> Node \<lparr>addr = snd (last xs), next = q\<rparr>)"
    have "list_at h' q' (xs @ ys)"
      unfolding h'_def using tl False Cons.prems(3) by (rule Cons.IH)
    moreover have "last xs \<in> set xs" using False by simp
    then have "fst (last xs) \<noteq> n'" using fresh(1) by force
    then have "h' n' = Some (Node \<lparr>addr = a', next = q'\<rparr>)"
      using hn by (simp add: h'_def)
    ultimately have "list_at h' p ((n', a') # xs @ ys)"
      using p by (simp add: list_at_Cons)
    moreover have "last (x # xs) = last xs" using False by simp
    ultimately show ?thesis
      unfolding h'_def x by (simp only: append_Cons)
  qed
qed

lemma list_at_pred:
  assumes "list_at h p (xs @ (n, a) # ys)" and "xs \<noteq> []"
  shows "h (fst (last xs)) = Some (Node \<lparr>addr = snd (last xs), next = n\<rparr>)"
proof -
  from assms(2) obtain bs l b where xs: "xs = bs @ [(l, b)]"
    by (cases xs rule: rev_cases) auto
  with assms(1) have "list_at h p (bs @ (l, b) # (n, a) # ys)" by simp
  then obtain q where "h l = Some (Node \<lparr>addr = b, next = q\<rparr>)"
    and "list_at h q ((n, a) # ys)"
    using list_at_split by blast
  with xs show ?thesis by (simp add: list_at_Cons)
qed

lemma list_at_not_node:
  "list_at h p ps \<Longrightarrow> \<forall>nd. h x \<noteq> Some (Node nd) \<Longrightarrow> x \<notin> fst ` set ps"
  using list_at_member by fastforce

lemma registry_frame:
  assumes "registry s m ps" and "x \<noteq> m" and "x \<notin> fst ` set ps" and "heap s' = (heap s)(x := v)"
  shows "registry s' m ps"
  using assms
  by (auto simp: registry_def manager_at_def list_at_frame split: option.splits obj.splits)

lemma registry_manager:
  "registry s m ps \<Longrightarrow> \<exists>mg. m \<noteq> NULL \<and> heap s m = Some (Manager mg) \<and> list_at (heap s) (head mg) ps"
  by (auto simp: registry_def manager_at_Some split: option.splits)

lemma mm_free_absent:
  assumes "registry s m ps" and "mem \<notin> snd ` set ps"
  shows "mm_free m mem s = Some (- 1, s)"
proof -
  from assms(1) obtain mg where "manager_at s m = Some mg" "list_at (heap s) (head mg) ps"
    by (auto simp: registry_def split: option.splits)
  with assms(2) show ?thesis
    by (simp add: mm_free_def mm_free_loop_absent)
qed

lemma mm_free_ok:
  assumes reg: "registry s m (xs @ (n, mem) # ys)" and first: "mem \<notin> snd ` set xs"
    and blk: "mem \<noteq> NULL" "heap s mem = Some Block"
  shows "\<exists>s'. mm_free m mem s = Some (0, s') \<and> registry s' m (xs @ ys) \<and>
           frees s' = frees s @ [mem, n] \<and> errno s' = errno s \<and> stderr s' = stderr s \<and>
           heap s' mem = None \<and> heap s' n = None \<and>
           (\<forall>x. x \<noteq> m \<longrightarrow> x \<noteq> mem \<longrightarrow> x \<noteq> n \<longrightarrow> x \<notin> fst ` set xs \<longrightarrow> heap s' x = heap s x)"
proof -
  from reg obtain mg where mg: "m \<noteq> NULL" "heap s m = Some (Manager mg)"
    and lst: "list_at (heap s) (head mg) (xs @ (n, mem) # ys)"
    using registry_manager by blast
  have mgr: "manager_at s m = Some mg"
    using mg by (simp add: manager_at_Some)
  from list_at_split [OF lst] obtain q where n: "n \<noteq> NULL"
    and hn: "heap s n = Some (Node \<lparr>addr = mem, next = q\<rparr>)" and tl: "list_at (heap s) q ys"
    by auto
  have dist: "distinct (map fst (xs @ (n, mem) # ys))"
    using lst by (rule list_at_distinct)
  have ne: "n \<noteq> m" "n \<noteq> mem" "m \<noteq> mem"
    using mg hn blk by auto
  have memfresh: "mem \<notin> fst ` set (xs @ ys)"
  proof -
    have "mem \<notin> fst ` set (xs @ (n, mem) # ys)"
      using lst by (rule list_at_not_node) (simp add: blk)
    then show ?thesis by auto
  qed
  have nfresh: "n \<notin> fst ` set (xs @ ys)"
    using dist by auto
  have loop: "mm_free_loop mem (head mg) NULL s = Some (n, if xs = [] then NULL else fst (last xs))"
    using lst first by (rule mm_free_loop_first)
  have nd: "node_at s n = Some \<lparr>addr = mem, next = q\<rparr>"
    using n hn by (simp add: node_at_Some)
  define unlink where "unlink =
    (if n = head mg then Some (store m (Manager (mg\<lparr>head := q\<rparr>)) s)
     else do {
       p \<leftarrow> node_at s (if xs = [] then NULL else fst (last xs));
       Some (store (if xs = [] then NULL else fst (last xs)) (Node (p\<lparr>next := q\<rparr>)) s)
     })"
  have "\<exists>s1. unlink = Some s1 \<and> registry s1 m (xs @ ys) \<and>
          heap s1 n = heap s n \<and> heap s1 mem = heap s mem \<and>
          frees s1 = frees s \<and> errno s1 = errno s \<and> stderr s1 = stderr s \<and>
          (\<forall>x. x \<noteq> m \<longrightarrow> x \<notin> fst ` set xs \<longrightarrow> heap s1 x = heap s x)"
  proof (cases "xs = []")
    case True
    with lst have hd: "head mg = n" by (simp add: list_at_Cons)
    have "m \<notin> fst ` set ys"
      using tl by (rule list_at_not_node) (simp add: mg)
    then have "list_at ((heap s)(m \<mapsto> Manager (mg\<lparr>head := q\<rparr>))) q ys"
      using tl by (simp add: list_at_frame)
    then have "registry (store m (Manager (mg\<lparr>head := q\<rparr>)) s) m ys"
      using mg by (simp add: registry_def manager_at_def store_def)
    with True hd ne show ?thesis
      by (simp add: unlink_def store_def)
  next
    case False
    define l where "l = fst (last xs)"
    define b where "b = snd (last xs)"
    have lin: "(l, b) \<in> set xs"
      using False by (simp add: l_def b_def)
    have hl: "heap s l = Some (Node \<lparr>addr = b, next = n\<rparr>)"
      unfolding l_def b_def using lst False by (rule list_at_pred)
    have l: "l \<noteq> NULL"
      using list_at_member [OF lst, of l b] lin by simp
    have lne: "l \<noteq> n" "l \<noteq> m" "l \<noteq> mem"
      using dist lin hl mg blk by force+
    have "head mg \<in> fst ` set xs"
      using lst False by (cases xs) (auto simp: list_at_Cons)
    with dist have hd: "n \<noteq> head mg" by auto
    have "list_at ((heap s)(l \<mapsto> Node \<lparr>addr = b, next = q\<rparr>)) (head mg) (xs @ ys)"
      unfolding l_def b_def using lst False tl by (rule list_at_unlink)
    then have "registry (store l (Node \<lparr>addr = b, next = q\<rparr>) s) m (xs @ ys)"
      using mg lne by (simp add: registry_def manager_at_def store_def)
    moreover have "node_at s l = Some \<lparr>addr = b, next = n\<rparr>"
      using hl l by (simp add: node_at_Some)
    moreover have "l \<in> fst ` set xs"
      using lin by force
    ultimately show ?thesis
      using False hd lne by (auto simp: unlink_def store_def l_def [symmetric])
  qed
  then obtain s1 where s1: "unlink = Some s1" and reg1: "registry s1 m (xs @ ys)"
    and same: "heap s1 n = heap s n" "heap s1 mem = heap s mem"
    and fields: "frees s1 = frees s" "errno s1 = errno s" "stderr s1 = stderr s"
    and frame: "\<forall>x. x \<noteq> m \<longrightarrow> x \<notin> fst ` set xs \<longrightarrow> heap s1 x = heap s x"
    by blast
  define s2 where "s2 = s1\<lparr>heap := (heap s1)(mem := None), frees := frees s1 @ [mem]\<rparr>"
  define s3 where "s3 = s2\<lparr>heap := (heap s2)(n := None), frees := frees s2 @ [n]\<rparr>"
  have nd1: "node_at s1 n = Some \<lparr>addr = mem, next = q\<rparr>"
    using n hn same by (simp add: node_at_Some)
  have f1: "free mem s1 = Some s2"
    using blk same by (simp add: free_def s2_def)
  have f2: "free n s2 = Some s3"
    using n hn same ne by (simp add: free_def s3_def s2_def)
  have "mm_free m mem s =
          do {
            s1 \<leftarrow> unlink;
            n1 \<leftarrow> node_at s1 n;
            s2 \<leftarrow> free (addr n1) s1;
            s3 \<leftarrow> free n s2;
            Some (0, s3)
          }"
    using mgr loop n nd by (simp add: mm_free_def unlink_def split del: if_split cong: if_cong)
  also have "\<dots> = Some (0, s3)"
    using s1 nd1 f1 f2 by simp
  finally have run: "mm_free m mem s = Some (0, s3)" .
  have "registry s2 m (xs @ ys)"
    using reg1 ne(3) [symmetric] memfresh by (rule registry_frame) (simp add: s2_def)
  then have "registry s3 m (xs @ ys)"
    using ne(1) nfresh by (rule registry_frame) (simp add: s3_def)
  with run fields frame show ?thesis
    by (auto simp: s3_def s2_def)
qed

lemma mm_find_in_list_absent:
  assumes "registry s m ps" and "mem \<notin> snd ` set ps"
  shows "mm_find_in_list m mem s = Some NULL"
proof -
  from assms(1) obtain mg where "manager_at s m = Some mg" "list_at (heap s) (head mg) ps"
    by (auto simp: registry_def split: option.splits)
  with assms(2) show ?thesis
    by (simp add: mm_find_in_list_def mm_find_loop_absent)
qed

lemma mm_find_in_list_first:
  assumes "registry s m (xs @ (n, mem) # ys)" and "mem \<notin> snd ` set xs"
  shows "mm_find_in_list m mem s = Some n"
proof -
  from assms(1) obtain mg where "manager_at s m = Some mg"
    "list_at (heap s) (head mg) (xs @ (n, mem) # ys)"
    by (auto simp: registry_def split: option.splits)
  with assms(2) show ?thesis
    by (simp add: mm_find_in_list_def mm_find_loop_first)
qed

lemma tracked_member:
  "tracked s ps \<Longrightarrow> (n, a) \<in> set ps \<Longrightarrow> a \<noteq> NULL \<and> heap s a = Some Block"
  by (auto simp: tracked_def list_all_iff)

lemma tracked_subset:
  assumes "tracked s ps" and "set qs \<subseteq> set ps" and "distinct (map snd qs)"
    and "\<forall>a \<in> snd ` set qs. heap s' a = heap s a"
  shows "tracked s' qs"
  using assms by (fastforce simp: tracked_def list_all_iff)

text \<open>
  C2. Two records store the live block \<open>10\<close> (a tracked allocation followed by
  \<open>mm_add\<close> of the same address). \<open>mm_free\<close> of \<open>10\<close> returns \<open>0\<close> and removes the first
  record only: \<open>mm_find_in_list\<close> still finds the address, in node \<open>3\<close>.
\<close>

theorem mm_free_leaves_second_record:
  "registry \<lparr>heap = [1 \<mapsto> Manager \<lparr>head = 2\<rparr>, 2 \<mapsto> Node \<lparr>addr = 10, next = 3\<rparr>,
                      3 \<mapsto> Node \<lparr>addr = 10, next = NULL\<rparr>, 10 \<mapsto> Block],
              errno = 0, stderr = [], frees = []\<rparr> 1 [(2, 10), (3, 10)] \<and>
   mm_free 1 10
     \<lparr>heap = [1 \<mapsto> Manager \<lparr>head = 2\<rparr>, 2 \<mapsto> Node \<lparr>addr = 10, next = 3\<rparr>,
              3 \<mapsto> Node \<lparr>addr = 10, next = NULL\<rparr>, 10 \<mapsto> Block],
      errno = 0, stderr = [], frees = []\<rparr> =
     Some (0, \<lparr>heap = [1 \<mapsto> Manager \<lparr>head = 3\<rparr>, 3 \<mapsto> Node \<lparr>addr = 10, next = NULL\<rparr>],
               errno = 0, stderr = [], frees = [10, 2]\<rparr>) \<and>
   mm_find_in_list 1 10
     \<lparr>heap = [1 \<mapsto> Manager \<lparr>head = 3\<rparr>, 3 \<mapsto> Node \<lparr>addr = 10, next = NULL\<rparr>],
      errno = 0, stderr = [], frees = [10, 2]\<rparr> = Some 3"
proof -
  let ?s = "\<lparr>heap = [1 \<mapsto> Manager \<lparr>head = 2\<rparr>, 2 \<mapsto> Node \<lparr>addr = 10, next = 3\<rparr>,
                    3 \<mapsto> Node \<lparr>addr = 10, next = NULL\<rparr>, 10 \<mapsto> Block],
             errno = 0::c_int, stderr = [], frees = []\<rparr>"
  let ?s' = "\<lparr>heap = [1 \<mapsto> Manager \<lparr>head = 3\<rparr>, 3 \<mapsto> Node \<lparr>addr = 10, next = NULL\<rparr>],
              errno = 0::c_int, stderr = [], frees = [10, 2]\<rparr>"
  have reg: "registry ?s 1 [(2, 10), (3, 10)]"
    by (simp add: registry_def manager_at_def list_at_Cons)
  have "mm_free_loop 10 2 NULL ?s = Some (2, NULL)"
    by (subst mm_free_loop.simps) (simp add: node_at_def)
  then have run: "mm_free 1 10 ?s = Some (0, ?s')"
    by (simp add: mm_free_def manager_at_def node_at_def store_def free_def fun_eq_iff)
  have "mm_find_loop 10 3 ?s' = Some 3"
    by (subst mm_find_loop.simps) (simp add: node_at_def)
  then have "mm_find_in_list 1 10 ?s' = Some 3"
    by (simp add: mm_find_in_list_def manager_at_def)
  with reg run show ?thesis by simp
qed

text \<open>
  C2, for an address stored once. In any registry, \<open>mm_free\<close> of an address that no
  record stores returns \<open>-1\<close> and changes nothing at all. When exactly one record,
  \<open>(n, mem)\<close>, stores the address of the live block \<open>mem\<close>, with the records \<open>xs\<close>
  before it and \<open>ys\<close> after it, \<open>mm_free\<close> returns \<open>0\<close>; the registry then holds \<open>xs\<close>
  followed by \<open>ys\<close> (the head pointer or the predecessor's link now skips the record),
  the block and then the node have been passed to \<^verbatim>\<open>free\<close>, in that order and nothing
  else, and \<open>mm_find_in_list\<close> no longer finds the address. If all stored addresses were
  live, pairwise different blocks before, they still are.
\<close>

theorem mm_free_removes_the_only_record:
  assumes "registry s m ps"
  shows "(mem \<notin> snd ` set ps \<longrightarrow> mm_free m mem s = Some (- 1, s)) \<and>
         (\<forall>xs n ys. ps = xs @ (n, mem) # ys \<and> mem \<notin> snd ` set xs \<and> mem \<notin> snd ` set ys \<and>
                    mem \<noteq> NULL \<and> heap s mem = Some Block \<longrightarrow>
            (\<exists>s'. mm_free m mem s = Some (0, s') \<and>
                  registry s' m (xs @ ys) \<and>
                  frees s' = frees s @ [mem, n] \<and>
                  heap s' mem = None \<and> heap s' n = None \<and>
                  errno s' = errno s \<and> stderr s' = stderr s \<and>
                  mm_find_in_list m mem s' = Some NULL \<and>
                  (tracked s ps \<longrightarrow> tracked s' (xs @ ys))))"
proof (intro conjI impI allI)
  assume "mem \<notin> snd ` set ps"
  with assms show "mm_free m mem s = Some (- 1, s)"
    by (rule mm_free_absent)
next
  fix xs n ys
  assume h: "ps = xs @ (n, mem) # ys \<and> mem \<notin> snd ` set xs \<and> mem \<notin> snd ` set ys \<and>
             mem \<noteq> NULL \<and> heap s mem = Some Block"
  then have ps: "ps = xs @ (n, mem) # ys" and first: "mem \<notin> snd ` set xs"
    and gone: "mem \<notin> snd ` set (xs @ ys)" and blk: "mem \<noteq> NULL" "heap s mem = Some Block"
    by auto
  from assms ps have reg: "registry s m (xs @ (n, mem) # ys)"
    by simp
  from mm_free_ok [OF reg first blk] obtain s' where run: "mm_free m mem s = Some (0, s')"
    and reg': "registry s' m (xs @ ys)" and log: "frees s' = frees s @ [mem, n]"
    and fields: "errno s' = errno s" "stderr s' = stderr s"
    and dead: "heap s' mem = None" "heap s' n = None"
    and frame: "\<forall>x. x \<noteq> m \<longrightarrow> x \<noteq> mem \<longrightarrow> x \<noteq> n \<longrightarrow> x \<notin> fst ` set xs \<longrightarrow> heap s' x = heap s x"
    by blast
  from reg obtain mg where mg: "heap s m = Some (Manager mg)"
    and lst: "list_at (heap s) (head mg) (xs @ (n, mem) # ys)"
    using registry_manager by blast
  have keeps: "tracked s' (xs @ ys)" if trk: "tracked s ps"
  proof -
    have "\<forall>a \<in> snd ` set (xs @ ys). heap s' a = heap s a"
    proof
      fix a
      assume a: "a \<in> snd ` set (xs @ ys)"
      then obtain k where "(k, a) \<in> set ps" using ps by fastforce
      with trk have ablk: "heap s a = Some Block"
        using tracked_member by blast
      have "a \<notin> fst ` set (xs @ (n, mem) # ys)"
        using lst by (rule list_at_not_node) (simp add: ablk)
      moreover have "a \<noteq> m" using mg ablk by auto
      moreover have "a \<noteq> mem" using a gone by auto
      ultimately show "heap s' a = heap s a"
        using frame by auto
    qed
    moreover have "set (xs @ ys) \<subseteq> set ps" using ps by auto
    moreover from trk ps have "distinct (map snd (xs @ ys))"
      by (auto simp: tracked_def)
    ultimately show ?thesis
      using trk tracked_subset by blast
  qed
  have "mm_find_in_list m mem s' = Some NULL"
    using reg' gone by (rule mm_find_in_list_absent)
  with keeps show "\<exists>s'. mm_free m mem s = Some (0, s') \<and>
      registry s' m (xs @ ys) \<and>
      frees s' = frees s @ [mem, n] \<and>
      heap s' mem = None \<and> heap s' n = None \<and>
      errno s' = errno s \<and> stderr s' = stderr s \<and>
      mm_find_in_list m mem s' = Some NULL \<and>
      (tracked s ps \<longrightarrow> tracked s' (xs @ ys))"
    using run reg' log fields dead by blast
qed

theorem mm_free_removes_the_only_record_witness:
  "registry \<lparr>heap = [1 \<mapsto> Manager \<lparr>head = 2\<rparr>, 2 \<mapsto> Node \<lparr>addr = 10, next = 3\<rparr>,
                      3 \<mapsto> Node \<lparr>addr = 11, next = NULL\<rparr>, 10 \<mapsto> Block, 11 \<mapsto> Block],
              errno = 0, stderr = [], frees = []\<rparr> 1 [(2, 10), (3, 11)] \<and>
   tracked \<lparr>heap = [1 \<mapsto> Manager \<lparr>head = 2\<rparr>, 2 \<mapsto> Node \<lparr>addr = 10, next = 3\<rparr>,
                     3 \<mapsto> Node \<lparr>addr = 11, next = NULL\<rparr>, 10 \<mapsto> Block, 11 \<mapsto> Block],
             errno = 0, stderr = [], frees = []\<rparr> [(2, 10), (3, 11)] \<and>
   mm_free 1 12
     \<lparr>heap = [1 \<mapsto> Manager \<lparr>head = 2\<rparr>, 2 \<mapsto> Node \<lparr>addr = 10, next = 3\<rparr>,
              3 \<mapsto> Node \<lparr>addr = 11, next = NULL\<rparr>, 10 \<mapsto> Block, 11 \<mapsto> Block],
      errno = 0, stderr = [], frees = []\<rparr> =
     Some (- 1, \<lparr>heap = [1 \<mapsto> Manager \<lparr>head = 2\<rparr>, 2 \<mapsto> Node \<lparr>addr = 10, next = 3\<rparr>,
                        3 \<mapsto> Node \<lparr>addr = 11, next = NULL\<rparr>, 10 \<mapsto> Block, 11 \<mapsto> Block],
                errno = 0, stderr = [], frees = []\<rparr>) \<and>
   (\<exists>s'. mm_free 1 11
           \<lparr>heap = [1 \<mapsto> Manager \<lparr>head = 2\<rparr>, 2 \<mapsto> Node \<lparr>addr = 10, next = 3\<rparr>,
                    3 \<mapsto> Node \<lparr>addr = 11, next = NULL\<rparr>, 10 \<mapsto> Block, 11 \<mapsto> Block],
            errno = 0, stderr = [], frees = []\<rparr> = Some (0, s') \<and>
         registry s' 1 [(2, 10)] \<and> tracked s' [(2, 10)] \<and> frees s' = [11, 3] \<and>
         mm_find_in_list 1 11 s' = Some NULL)"
proof -
  let ?s = "\<lparr>heap = [1 \<mapsto> Manager \<lparr>head = 2\<rparr>, 2 \<mapsto> Node \<lparr>addr = 10, next = 3\<rparr>,
                    3 \<mapsto> Node \<lparr>addr = 11, next = NULL\<rparr>, 10 \<mapsto> Block, 11 \<mapsto> Block],
             errno = 0::c_int, stderr = [], frees = []\<rparr>"
  have reg: "registry ?s 1 [(2, 10), (3, 11)]"
    by (simp add: registry_def manager_at_def list_at_Cons)
  have trk: "tracked ?s [(2, 10), (3, 11)]"
    by (simp add: tracked_def)
  have "mm_free 1 12 ?s = Some (- 1, ?s)"
    using mm_free_removes_the_only_record [OF reg, of 12] by simp
  moreover have "[(2::nat, 10::nat), (3, 11)] = [(2, 10)] @ (3, 11) # [] \<and>
        11 \<notin> snd ` set [(2::nat, 10::nat)] \<and> 11 \<notin> snd ` set ([] :: (nat \<times> nat) list) \<and>
        (11::nat) \<noteq> NULL \<and> heap ?s 11 = Some Block \<longrightarrow>
      (\<exists>s'. mm_free 1 11 ?s = Some (0, s') \<and> registry s' 1 ([(2, 10)] @ []) \<and>
            frees s' = frees ?s @ [11, 3] \<and>
            heap s' 11 = None \<and> heap s' 3 = None \<and>
            errno s' = errno ?s \<and> stderr s' = stderr ?s \<and>
            mm_find_in_list 1 11 s' = Some NULL \<and>
            (tracked ?s [(2, 10), (3, 11)] \<longrightarrow> tracked s' ([(2, 10)] @ [])))"
    using mm_free_removes_the_only_record [OF reg, of 11] by blast
  ultimately show ?thesis
    using reg trk by auto
qed

section \<open>Releasing every record\<close>

lemma tracked_Cons:
  "tracked s ((n, a) # ps) \<longleftrightarrow>
     a \<noteq> NULL \<and> heap s a = Some Block \<and> a \<notin> snd ` set ps \<and> tracked s ps"
  by (auto simp: tracked_def)

lemma tracked_not_node:
  "tracked s ps \<Longrightarrow> heap s x \<noteq> Some Block \<Longrightarrow> x \<notin> snd ` set ps"
  using tracked_member by fastforce

lemma mm_free_recurse_ok:
  "list_at (heap s) p ps \<Longrightarrow> tracked s ps \<Longrightarrow>
     mm_free_recurse p s =
       Some (of_nat (length ps),
             s\<lparr>heap := heap s |` (- (fst ` set ps \<union> snd ` set ps)),
               frees := frees s @ concat (map (\<lambda>(n, a). [a, n]) (rev ps))\<rparr>)"
proof (induction ps arbitrary: p)
  case Nil
  then show ?case
    by (subst mm_free_recurse.simps) (simp add: restrict_map_def)
next
  case (Cons x ps)
  obtain n a where x: "x = (n, a)" by (cases x)
  with Cons.prems(1) obtain q where
    p: "p = n" "n \<noteq> NULL" and hn: "heap s n = Some (Node \<lparr>addr = a, next = q\<rparr>)"
    and tl: "list_at (heap s) q ps"
    by (auto simp: list_at_Cons)
  from Cons.prems(2) x have a: "a \<noteq> NULL" "heap s a = Some Block" "a \<notin> snd ` set ps"
    and trk: "tracked s ps"
    by (simp_all add: tracked_Cons)
  have "distinct (map fst (x # ps))"
    using Cons.prems(1) by (rule list_at_distinct)
  with x have n1: "n \<notin> fst ` set ps" by simp
  have n2: "n \<notin> snd ` set ps"
    using trk by (rule tracked_not_node) (simp add: hn)
  have a1: "a \<notin> fst ` set ps"
    using tl by (rule list_at_not_node) (simp add: a)
  have na: "n \<noteq> a" using hn a by auto
  define s1 where "s1 = s\<lparr>heap := heap s |` (- (fst ` set ps \<union> snd ` set ps)),
                         frees := frees s @ concat (map (\<lambda>(n, a). [a, n]) (rev ps))\<rparr>"
  define s2 where "s2 = s1\<lparr>heap := (heap s1)(a := None), frees := frees s1 @ [a]\<rparr>"
  define s3 where "s3 = s2\<lparr>heap := (heap s2)(n := None), frees := frees s2 @ [n]\<rparr>"
  have rec: "mm_free_recurse q s = Some (of_nat (length ps), s1)"
    unfolding s1_def using tl trk by (rule Cons.IH)
  have nd: "node_at s n = Some \<lparr>addr = a, next = q\<rparr>"
    using p hn by (simp add: node_at_Some)
  have nd1: "node_at s1 n = Some \<lparr>addr = a, next = q\<rparr>"
    using p hn n1 n2 by (simp add: node_at_Some s1_def)
  have f1: "free a s1 = Some s2"
    using a a1 by (simp add: free_def s1_def s2_def)
  have f2: "free n s2 = Some s3"
    using p hn n1 n2 na by (simp add: free_def s1_def s2_def s3_def)
  have "mm_free_recurse p s = Some (1 + of_nat (length ps), s3)"
    using p nd rec nd1 f1 f2 by (subst mm_free_recurse.simps) simp
  moreover have "heap s3 = heap s |` (- (fst ` set (x # ps) \<union> snd ` set (x # ps)))"
    by (rule ext) (simp add: s3_def s2_def s1_def x restrict_map_def)
  then have "s3 = s\<lparr>heap := heap s |` (- (fst ` set (x # ps) \<union> snd ` set (x # ps))),
                   frees := frees s @ concat (map (\<lambda>(n, a). [a, n]) (rev (x # ps)))\<rparr>"
    by (simp add: s3_def s2_def s1_def x)
  ultimately show ?case by simp
qed

lemma mm_free_all_ok:
  assumes "registry s m ps" and "tracked s ps"
  shows "mm_free_all m s =
       Some (of_nat (length ps),
             s\<lparr>heap := heap s |` (- (fst ` set ps \<union> snd ` set ps)),
               frees := frees s @ concat (map (\<lambda>(n, a). [a, n]) (rev ps))\<rparr>)"
proof -
  from assms(1) obtain mg where "manager_at s m = Some mg" "list_at (heap s) (head mg) ps"
    by (auto simp: registry_def split: option.splits)
  with assms(2) show ?thesis
    by (simp add: mm_free_all_def mm_free_recurse_ok)
qed

lemma mm_free_all_keeps_manager:
  assumes "registry s m ps" and "tracked s ps"
  shows "(heap s |` (- (fst ` set ps \<union> snd ` set ps))) m = heap s m"
proof -
  from assms(1) obtain mg where mg: "heap s m = Some (Manager mg)"
    and lst: "list_at (heap s) (head mg) ps"
    using registry_manager by blast
  have "m \<notin> fst ` set ps"
    using lst by (rule list_at_not_node) (simp add: mg)
  moreover have "m \<notin> snd ` set ps"
    using assms(2) by (rule tracked_not_node) (simp add: mg)
  ultimately show ?thesis by simp
qed

lemma mm_free_all_leaves_head_dangling:
  assumes "registry s m ps" and "tracked s ps" and "ps \<noteq> []"
  shows "\<exists>s' mg. mm_free_all m s = Some (of_nat (length ps), s') \<and>
           manager_at s' m = Some mg \<and> head mg = fst (hd ps) \<and> head mg \<noteq> NULL \<and>
           heap s' (head mg) = None \<and> \<not> registry s' m [] \<and> mm_free_all m s' = None"
proof -
  define s' where "s' = s\<lparr>heap := heap s |` (- (fst ` set ps \<union> snd ` set ps)),
               frees := frees s @ concat (map (\<lambda>(n, a). [a, n]) (rev ps))\<rparr>"
  from assms(1) obtain mg where mg: "m \<noteq> NULL" "heap s m = Some (Manager mg)"
    and lst: "list_at (heap s) (head mg) ps"
    using registry_manager by blast
  from assms(3) obtain n a qs where ps: "ps = (n, a) # qs"
    by (cases ps) auto
  with lst have hd: "head mg = n" "n \<noteq> NULL"
    by (auto simp: list_at_Cons)
  have run: "mm_free_all m s = Some (of_nat (length ps), s')"
    unfolding s'_def using assms(1,2) by (rule mm_free_all_ok)
  have "heap s' m = heap s m"
    using mm_free_all_keeps_manager [OF assms(1,2)] by (simp add: s'_def)
  with mg have mgr: "manager_at s' m = Some mg"
    by (simp add: manager_at_Some)
  have dead: "heap s' n = None"
    by (simp add: s'_def ps)
  then have "node_at s' n = None"
    by (simp add: node_at_def)
  with hd have "mm_free_recurse (head mg) s' = None"
    by (subst mm_free_recurse.simps) simp
  with mgr have again: "mm_free_all m s' = None"
    by (simp add: mm_free_all_def)
  have "\<not> registry s' m []"
    using mgr hd by (simp add: registry_def)
  with run mgr hd dead again ps show ?thesis by auto
qed

text \<open>
  C1. A registry with the single record \<open>(2, 10)\<close>: \<open>mm_free_all\<close> returns 1 and
  frees the block and the node, but the manager's \<open>head\<close> still holds the address of
  the freed node. The registry is therefore not the empty registry, and a second
  \<open>mm_free_all\<close> reads the freed node: it has no outcome, where 0 is expected.
\<close>

theorem mm_free_all_twice_has_no_outcome:
  "mm_free_all 1
     \<lparr>heap = [1 \<mapsto> Manager \<lparr>head = 2\<rparr>, 2 \<mapsto> Node \<lparr>addr = 10, next = NULL\<rparr>, 10 \<mapsto> Block],
      errno = 0, stderr = [], frees = []\<rparr> =
     Some (1, \<lparr>heap = [1 \<mapsto> Manager \<lparr>head = 2\<rparr>], errno = 0, stderr = [], frees = [10, 2]\<rparr>) \<and>
   manager_at \<lparr>heap = [1 \<mapsto> Manager \<lparr>head = 2\<rparr>], errno = 0, stderr = [], frees = [10, 2]\<rparr> 1 =
     Some \<lparr>head = 2\<rparr> \<and>
   node_at \<lparr>heap = [1 \<mapsto> Manager \<lparr>head = 2\<rparr>], errno = 0, stderr = [], frees = [10, 2]\<rparr> 2 = None \<and>
   \<not> registry \<lparr>heap = [1 \<mapsto> Manager \<lparr>head = 2\<rparr>], errno = 0, stderr = [], frees = [10, 2]\<rparr> 1 [] \<and>
   mm_free_all 1 \<lparr>heap = [1 \<mapsto> Manager \<lparr>head = 2\<rparr>], errno = 0, stderr = [], frees = [10, 2]\<rparr> = None"
proof -
  let ?s = "\<lparr>heap = [1 \<mapsto> Manager \<lparr>head = 2\<rparr>, 2 \<mapsto> Node \<lparr>addr = 10, next = NULL\<rparr>, 10 \<mapsto> Block],
             errno = 0::c_int, stderr = [], frees = []\<rparr>"
  let ?s' = "\<lparr>heap = [1 \<mapsto> Manager \<lparr>head = 2\<rparr>], errno = 0::c_int, stderr = [], frees = [10, 2]\<rparr>"
  have "mm_free_recurse NULL ?s = Some (0, ?s)"
    by (subst mm_free_recurse.simps) simp
  then have "mm_free_recurse 2 ?s =
      Some (1, ?s\<lparr>heap := (heap ?s)(10 := None, 2 := None), frees := [10, 2]\<rparr>)"
    by (subst mm_free_recurse.simps) (simp add: node_at_def free_def)
  moreover have "(heap ?s)(10 := None, 2 := None) = [1 \<mapsto> Manager \<lparr>head = 2\<rparr>]"
    by (rule ext) simp
  ultimately have first: "mm_free_all 1 ?s = Some (1, ?s')"
    by (simp add: mm_free_all_def manager_at_def)
  have "mm_free_recurse 2 ?s' = None"
    by (subst mm_free_recurse.simps) (simp add: node_at_def)
  then have second: "mm_free_all 1 ?s' = None"
    by (simp add: mm_free_all_def manager_at_def)
  show ?thesis
    using first second by (simp add: manager_at_def node_at_def registry_def)
qed

text \<open>
  C7. Two records store the live block \<open>10\<close>. \<open>free_mem_manager\<close> has no outcome on
  this registry: \<open>mm_free_recurse\<close> frees the block for the last record and then
  passes the same address to \<^verbatim>\<open>free\<close> again for the first. Nor is there a failure
  result for a manager pointer that is not null but points to no manager (here \<open>5\<close>):
  the only test is the one for a null pointer.
\<close>

theorem free_mem_manager_frees_block_twice:
  "registry \<lparr>heap = [1 \<mapsto> Manager \<lparr>head = 2\<rparr>, 2 \<mapsto> Node \<lparr>addr = 10, next = 3\<rparr>,
                      3 \<mapsto> Node \<lparr>addr = 10, next = NULL\<rparr>, 10 \<mapsto> Block],
              errno = 0, stderr = [], frees = []\<rparr> 1 [(2, 10), (3, 10)] \<and>
   free_mem_manager 1
     \<lparr>heap = [1 \<mapsto> Manager \<lparr>head = 2\<rparr>, 2 \<mapsto> Node \<lparr>addr = 10, next = 3\<rparr>,
              3 \<mapsto> Node \<lparr>addr = 10, next = NULL\<rparr>, 10 \<mapsto> Block],
      errno = 0, stderr = [], frees = []\<rparr> = None \<and>
   free_mem_manager 5
     \<lparr>heap = [1 \<mapsto> Manager \<lparr>head = 2\<rparr>, 2 \<mapsto> Node \<lparr>addr = 10, next = 3\<rparr>,
              3 \<mapsto> Node \<lparr>addr = 10, next = NULL\<rparr>, 10 \<mapsto> Block],
      errno = 0, stderr = [], frees = []\<rparr> = None"
proof -
  let ?s = "\<lparr>heap = [1 \<mapsto> Manager \<lparr>head = 2\<rparr>, 2 \<mapsto> Node \<lparr>addr = 10, next = 3\<rparr>,
                    3 \<mapsto> Node \<lparr>addr = 10, next = NULL\<rparr>, 10 \<mapsto> Block],
             errno = 0::c_int, stderr = [], frees = []\<rparr>"
  have reg: "registry ?s 1 [(2, 10), (3, 10)]"
    by (simp add: registry_def manager_at_def list_at_Cons)
  have "mm_free_recurse NULL ?s = Some (0, ?s)"
    by (subst mm_free_recurse.simps) simp
  then have "mm_free_recurse 3 ?s =
      Some (1, ?s\<lparr>heap := (heap ?s)(10 := None, 3 := None), frees := [10, 3]\<rparr>)"
    by (subst mm_free_recurse.simps) (simp add: node_at_def free_def)
  then have "mm_free_recurse 2 ?s = None"
    by (subst mm_free_recurse.simps) (simp add: node_at_def free_def)
  then have "mm_free_all 1 ?s = None"
    by (simp add: mm_free_all_def manager_at_def)
  then have twice: "free_mem_manager 1 ?s = None"
    by (simp add: free_mem_manager_def manager_at_def)
  have "free_mem_manager 5 ?s = None"
    by (simp add: free_mem_manager_def manager_at_def)
  with reg twice show ?thesis by simp
qed

text \<open>
  C7, for a null manager and for live, pairwise different blocks. \<open>free_mem_manager\<close>
  on a null manager returns \<open>-1\<close> and changes nothing. On a registry whose stored
  addresses are live, pairwise different blocks it returns \<open>0\<close>,
  however many records there are: every block and node has been freed by
  \<open>mm_free_all\<close> (last record first, each block before its node), then the manager
  itself, and nothing else has changed.
\<close>

theorem free_mem_manager_frees_all_then_itself:
  assumes "registry s m ps" and "tracked s ps"
  shows "free_mem_manager NULL s = Some (- 1, s) \<and>
         free_mem_manager m s =
           Some (0, s\<lparr>heap := heap s |` (- insert m (fst ` set ps \<union> snd ` set ps)),
                     frees := frees s @ concat (map (\<lambda>(n, a). [a, n]) (rev ps)) @ [m]\<rparr>)"
proof -
  define s1 where "s1 = s\<lparr>heap := heap s |` (- (fst ` set ps \<union> snd ` set ps)),
               frees := frees s @ concat (map (\<lambda>(n, a). [a, n]) (rev ps))\<rparr>"
  from assms(1) obtain mg where mg: "m \<noteq> NULL" "heap s m = Some (Manager mg)"
    using registry_manager by blast
  have all: "mm_free_all m s = Some (of_nat (length ps), s1)"
    unfolding s1_def using assms by (rule mm_free_all_ok)
  have "heap s1 m = heap s m"
    using mm_free_all_keeps_manager [OF assms] by (simp add: s1_def)
  with mg have "free m s1 = Some (s1\<lparr>heap := (heap s1)(m := None), frees := frees s1 @ [m]\<rparr>)"
    by (simp add: free_def)
  moreover have "(heap s1)(m := None) = heap s |` (- insert m (fst ` set ps \<union> snd ` set ps))"
    by (rule ext) (simp add: s1_def restrict_map_def)
  ultimately have "free m s1 =
      Some (s\<lparr>heap := heap s |` (- insert m (fst ` set ps \<union> snd ` set ps)),
              frees := frees s @ concat (map (\<lambda>(n, a). [a, n]) (rev ps)) @ [m]\<rparr>)"
    by (simp add: s1_def)
  with all mg show ?thesis
    by (simp add: free_mem_manager_def manager_at_def)
qed

theorem free_mem_manager_frees_all_then_itself_witness:
  "registry \<lparr>heap = [1 \<mapsto> Manager \<lparr>head = NULL\<rparr>], errno = 0, stderr = [], frees = []\<rparr> 1 [] \<and>
   tracked \<lparr>heap = [1 \<mapsto> Manager \<lparr>head = NULL\<rparr>], errno = 0, stderr = [], frees = []\<rparr> [] \<and>
   (\<exists>s'. free_mem_manager 1
            \<lparr>heap = [1 \<mapsto> Manager \<lparr>head = NULL\<rparr>], errno = 0, stderr = [], frees = []\<rparr> = Some (0, s') \<and>
          heap s' 1 = None \<and> frees s' = [1]) \<and>
   registry \<lparr>heap = [1 \<mapsto> Manager \<lparr>head = 2\<rparr>, 2 \<mapsto> Node \<lparr>addr = 10, next = 3\<rparr>,
                      3 \<mapsto> Node \<lparr>addr = 11, next = NULL\<rparr>, 10 \<mapsto> Block, 11 \<mapsto> Block],
              errno = 0, stderr = [], frees = []\<rparr> 1 [(2, 10), (3, 11)] \<and>
   tracked \<lparr>heap = [1 \<mapsto> Manager \<lparr>head = 2\<rparr>, 2 \<mapsto> Node \<lparr>addr = 10, next = 3\<rparr>,
                     3 \<mapsto> Node \<lparr>addr = 11, next = NULL\<rparr>, 10 \<mapsto> Block, 11 \<mapsto> Block],
             errno = 0, stderr = [], frees = []\<rparr> [(2, 10), (3, 11)] \<and>
   (\<exists>s'. free_mem_manager 1
            \<lparr>heap = [1 \<mapsto> Manager \<lparr>head = 2\<rparr>, 2 \<mapsto> Node \<lparr>addr = 10, next = 3\<rparr>,
                     3 \<mapsto> Node \<lparr>addr = 11, next = NULL\<rparr>, 10 \<mapsto> Block, 11 \<mapsto> Block],
             errno = 0, stderr = [], frees = []\<rparr> = Some (0, s') \<and>
          heap s' 1 = None \<and> heap s' 2 = None \<and> heap s' 3 = None \<and>
          heap s' 10 = None \<and> heap s' 11 = None \<and> frees s' = [11, 3, 10, 2, 1]) \<and>
   free_mem_manager NULL
     \<lparr>heap = [1 \<mapsto> Manager \<lparr>head = NULL\<rparr>], errno = 0, stderr = [], frees = []\<rparr> =
     Some (- 1, \<lparr>heap = [1 \<mapsto> Manager \<lparr>head = NULL\<rparr>], errno = 0, stderr = [], frees = []\<rparr>)"
proof -
  let ?e = "\<lparr>heap = [1 \<mapsto> Manager \<lparr>head = NULL\<rparr>], errno = 0::c_int, stderr = [], frees = []\<rparr>"
  let ?s = "\<lparr>heap = [1 \<mapsto> Manager \<lparr>head = 2\<rparr>, 2 \<mapsto> Node \<lparr>addr = 10, next = 3\<rparr>,
                    3 \<mapsto> Node \<lparr>addr = 11, next = NULL\<rparr>, 10 \<mapsto> Block, 11 \<mapsto> Block],
             errno = 0::c_int, stderr = [], frees = []\<rparr>"
  have rege: "registry ?e 1 []"
    by (simp add: registry_def manager_at_def)
  have trke: "tracked ?e []"
    by (simp add: tracked_def)
  have reg: "registry ?s 1 [(2, 10), (3, 11)]"
    by (simp add: registry_def manager_at_def list_at_Cons)
  have trk: "tracked ?s [(2, 10), (3, 11)]"
    by (simp add: tracked_def)
  show ?thesis
    using free_mem_manager_frees_all_then_itself [OF rege trke]
      free_mem_manager_frees_all_then_itself [OF reg trk] rege trke reg trk
    by (simp add: restrict_map_def)
qed

section \<open>Resizing a tracked block\<close>

lemma list_at_retarget:
  "list_at h p (xs @ (n, a) # ys) \<Longrightarrow> list_at h q ys \<Longrightarrow>
     list_at (h(n \<mapsto> Node \<lparr>addr = a', next = q\<rparr>)) p (xs @ (n, a') # ys)"
proof (induction xs arbitrary: p)
  case Nil
  have "distinct (map fst ((n, a) # ys))"
    using Nil.prems(1) list_at_distinct [of h p "(n, a) # ys"] by simp
  then have "n \<notin> fst ` set ys" by simp
  define h' where "h' = h(n \<mapsto> Node \<lparr>addr = a', next = q\<rparr>)"
  have "list_at h' q ys"
    using Nil.prems(2) \<open>n \<notin> fst ` set ys\<close> by (simp add: h'_def list_at_frame)
  moreover have "h' n = Some (Node \<lparr>addr = a', next = q\<rparr>)"
    by (simp add: h'_def)
  moreover have "p = n" "n \<noteq> NULL"
    using Nil.prems(1) by (auto simp: list_at_Cons)
  ultimately have "list_at h' p ((n, a') # ys)"
    by (simp add: list_at_Cons)
  then show ?case
    unfolding h'_def by (simp only: append_Nil)
next
  case (Cons x xs)
  obtain k b where x: "x = (k, b)" by (cases x)
  with Cons.prems(1) obtain q' where
    p: "p = k" "k \<noteq> NULL" and hk: "h k = Some (Node \<lparr>addr = b, next = q'\<rparr>)"
    and tl: "list_at h q' (xs @ (n, a) # ys)"
    by (auto simp: list_at_Cons)
  have "distinct (map fst ((x # xs) @ (n, a) # ys))"
    using Cons.prems(1) by (rule list_at_distinct)
  with x have kn: "k \<noteq> n" by auto
  define h' where "h' = h(n \<mapsto> Node \<lparr>addr = a', next = q\<rparr>)"
  have "list_at h' q' (xs @ (n, a') # ys)"
    unfolding h'_def using tl Cons.prems(2) by (rule Cons.IH)
  moreover have "h' k = Some (Node \<lparr>addr = b, next = q'\<rparr>)"
    using hk kn by (simp add: h'_def)
  ultimately have "list_at h' p ((k, b) # xs @ (n, a') # ys)"
    using p by (simp add: list_at_Cons)
  then show ?case
    unfolding h'_def x by (simp only: append_Cons)
qed

lemma registry_heap_only: "heap s' = heap s \<Longrightarrow> registry s' m ps = registry s m ps"
  by (auto simp: registry_def manager_at_def split: option.splits obj.splits)

lemma tracked_heap_only: "heap s' = heap s \<Longrightarrow> tracked s' ps = tracked s ps"
  by (simp add: tracked_def)

lemma first_record:
  "a \<in> snd ` set ps \<Longrightarrow> \<exists>xs k ys. ps = xs @ (k, a) # ys \<and> a \<notin> snd ` set xs"
proof (induction ps)
  case Nil
  then show ?case by simp
next
  case (Cons x ps)
  obtain k' a' where x: "x = (k', a')" by (cases x)
  show ?case
  proof (cases "a' = a")
    case True
    with x have "x # ps = [] @ (k', a) # ps \<and> a \<notin> snd ` set []" by simp
    then show ?thesis by blast
  next
    case False
    with Cons.prems x have "a \<in> snd ` set ps" by auto
    with Cons.IH obtain xs k ys where "ps = xs @ (k, a) # ys" "a \<notin> snd ` set xs"
      by blast
    with False x have "x # ps = (x # xs) @ (k, a) # ys \<and> a \<notin> snd ` set (x # xs)"
      by simp
    then show ?thesis by blast
  qed
qed

lemma mm_find_in_list_member:
  assumes "registry s m ps" and "a \<in> snd ` set ps"
  shows "\<exists>k. k \<noteq> NULL \<and> (k, a) \<in> set ps \<and> mm_find_in_list m a s = Some k"
proof -
  from first_record [OF assms(2)] obtain xs k ys
    where ps: "ps = xs @ (k, a) # ys" and first: "a \<notin> snd ` set xs"
    by blast
  from assms(1) ps have reg: "registry s m (xs @ (k, a) # ys)" by simp
  then have "mm_find_in_list m a s = Some k"
    using first by (rule mm_find_in_list_first)
  moreover from reg obtain mg :: memory_manager
    where "list_at (heap s) (head mg) (xs @ (k, a) # ys)"
    using registry_manager by blast
  then have "k \<noteq> NULL" using list_at_split by blast
  ultimately show ?thesis using ps by auto
qed

lemma realloc_moves:
  assumes "p \<noteq> NULL" and "heap s p = Some ob" and "r \<noteq> NULL" and "r \<noteq> p"
    and "heap s r = None"
  shows "realloc (r, e) d p sz s = Some (r, s\<lparr>heap := (heap s)(p := None, r \<mapsto> ob)\<rparr>)"
  using assms by (simp add: realloc_def)

lemma realloc_fails:
  assumes "p \<noteq> NULL" and "heap s p = Some ob"
  shows "realloc (NULL, e) d p sz s =
           Some (NULL, s\<lparr>heap := (if sz = 0 \<and> d then (heap s)(p := None) else heap s),
                          errno := e\<rparr>)"
  using assms by (simp add: realloc_def)

lemma mm_realloc_retargets:
  assumes reg: "registry s m (xs @ (n, p) # ys)" and first: "p \<notin> snd ` set xs"
    and p: "p \<noteq> NULL" "heap s p = Some Block"
    and r: "r \<noteq> NULL" "r \<noteq> p" "heap s r = None"
  shows "\<exists>s'. mm_realloc (r, e) d p sz m file func line s = Some (r, s') \<and>
           registry s' m (xs @ (n, r) # ys) \<and>
           errno s' = errno s \<and> stderr s' = stderr s \<and> frees s' = frees s \<and>
           heap s' p = None \<and> heap s' r = Some Block \<and>
           (\<forall>x. x \<noteq> p \<longrightarrow> x \<noteq> r \<longrightarrow> x \<noteq> n \<longrightarrow> heap s' x = heap s x)"
proof -
  from reg obtain mg where mg: "m \<noteq> NULL" "heap s m = Some (Manager mg)"
    and lst: "list_at (heap s) (head mg) (xs @ (n, p) # ys)"
    using registry_manager by blast
  from list_at_split [OF lst] obtain q where n: "n \<noteq> NULL"
    and hn: "heap s n = Some (Node \<lparr>addr = p, next = q\<rparr>)" and tl: "list_at (heap s) q ys"
    by auto
  have pnode: "p \<notin> fst ` set (xs @ (n, p) # ys)"
    using lst by (rule list_at_not_node) (simp add: p)
  have rnode: "r \<notin> fst ` set (xs @ (n, p) # ys)"
    using lst r(3) by (rule list_at_nodes_live)
  have ne: "m \<noteq> p" "m \<noteq> r" "n \<noteq> p" "n \<noteq> r" "m \<noteq> n"
    using mg p r hn by auto
  define s1 where "s1 = s\<lparr>heap := (heap s)(p := None, r \<mapsto> Block)\<rparr>"
  define s2 where "s2 = store n (Node \<lparr>addr = r, next = q\<rparr>) s1"
  have moved: "realloc (r, e) d p sz s = Some (r, s1)"
    unfolding s1_def using p r by (rule realloc_moves)
  have "registry (s\<lparr>heap := (heap s)(p := None)\<rparr>) m (xs @ (n, p) # ys)"
    using reg ne(1) [symmetric] pnode by (rule registry_frame) simp
  then have reg1: "registry s1 m (xs @ (n, p) # ys)"
    using ne(2) [symmetric] rnode by (rule registry_frame) (simp add: s1_def)
  have found: "mm_find_in_list m p s1 = Some n"
    using reg1 first by (rule mm_find_in_list_first)
  have nd1: "node_at s1 n = Some \<lparr>addr = p, next = q\<rparr>"
    using n hn ne by (simp add: node_at_Some s1_def)
  have run: "mm_realloc (r, e) d p sz m file func line s = Some (r, s2)"
    using moved r mg found n nd1 by (simp add: mm_realloc_def s2_def)
  from reg1 obtain mg1 where mg1: "manager_at s1 m = Some mg1"
    and lst1: "list_at (heap s1) (head mg1) (xs @ (n, p) # ys)"
    by (auto simp: registry_def split: option.splits)
  from list_at_split [OF lst1] nd1 have tl1: "list_at (heap s1) q ys"
    by (auto simp: node_at_Some)
  have "list_at ((heap s1)(n \<mapsto> Node \<lparr>addr = r, next = q\<rparr>)) (head mg1) (xs @ (n, r) # ys)"
    using lst1 tl1 by (rule list_at_retarget)
  moreover have "manager_at s2 m = Some mg1"
    using mg1 ne by (simp add: manager_at_Some s2_def store_def)
  ultimately have reg2: "registry s2 m (xs @ (n, r) # ys)"
    by (simp add: registry_def s2_def store_def)
  have "heap s2 p = None" "heap s2 r = Some Block"
    using ne r by (simp_all add: s2_def s1_def store_def)
  with run reg2 show ?thesis
    by (auto simp: s2_def s1_def store_def)
qed

lemma mm_realloc_untracked:
  assumes reg: "registry s m ps" and absent: "p \<notin> snd ` set ps"
    and p: "p = NULL \<or> heap s p = Some Block"
    and r: "r \<noteq> NULL" "r \<noteq> p" "heap s r = None"
  shows "\<exists>s'. mm_realloc (r, e) d p sz m file func line s = Some (r, s') \<and>
           registry s' m ps \<and> heap s' r = Some Block \<and>
           errno s' = errno s \<and> stderr s' = stderr s \<and> frees s' = frees s \<and>
           (\<forall>x. x \<noteq> p \<longrightarrow> x \<noteq> r \<longrightarrow> heap s' x = heap s x)"
proof -
  from reg obtain mg where mg: "m \<noteq> NULL" "heap s m = Some (Manager mg)"
    and lst: "list_at (heap s) (head mg) ps"
    using registry_manager by blast
  have rnode: "r \<notin> fst ` set ps"
    using lst r(3) by (rule list_at_nodes_live)
  have mr: "m \<noteq> r" using mg r by auto
  have "\<exists>s1 h. realloc (r, e) d p sz s = Some (r, s1) \<and> s1 = s\<lparr>heap := h(r \<mapsto> Block)\<rparr> \<and>
          registry (s\<lparr>heap := h\<rparr>) m ps \<and> (\<forall>x. x \<noteq> p \<longrightarrow> h x = heap s x)"
  proof (cases "p = NULL")
    case True
    with r have "realloc (r, e) d p sz s = Some (r, s\<lparr>heap := (heap s)(r \<mapsto> Block)\<rparr>)"
      by (simp add: realloc_def malloc_def)
    with reg show ?thesis by force
  next
    case False
    with p have blk: "heap s p = Some Block" by simp
    have "p \<notin> fst ` set ps"
      using lst by (rule list_at_not_node) (simp add: blk)
    moreover have "p \<noteq> m" using mg blk by auto
    ultimately have "registry (s\<lparr>heap := (heap s)(p := None)\<rparr>) m ps"
      by (intro registry_frame [OF reg]) auto
    moreover have "realloc (r, e) d p sz s = Some (r, s\<lparr>heap := (heap s)(p := None, r \<mapsto> Block)\<rparr>)"
      using False blk r by (rule realloc_moves)
    ultimately show ?thesis by force
  qed
  then obtain s1 h where moved: "realloc (r, e) d p sz s = Some (r, s1)"
    and s1: "s1 = s\<lparr>heap := h(r \<mapsto> Block)\<rparr>" and regh: "registry (s\<lparr>heap := h\<rparr>) m ps"
    and frame: "\<forall>x. x \<noteq> p \<longrightarrow> h x = heap s x"
    by blast
  have reg1: "registry s1 m ps"
    using regh mr [symmetric] rnode by (rule registry_frame) (simp add: s1)
  have "mm_find_in_list m p s1 = Some NULL"
    using reg1 absent by (rule mm_find_in_list_absent)
  with moved r mg have run: "mm_realloc (r, e) d p sz m file func line s = Some (r, s1)"
    by (simp add: mm_realloc_def)
  with reg1 frame show ?thesis
    by (auto simp: s1)
qed

lemma tracked_frame:
  assumes "tracked s ps" and "\<forall>a \<in> snd ` set ps. a \<notin> X"
    and "\<forall>x. x \<notin> X \<longrightarrow> heap s' x = heap s x"
  shows "tracked s' ps"
proof -
  have "\<forall>a \<in> snd ` set ps. heap s' a = heap s a"
    using assms(2,3) by blast
  moreover from assms(1) have "distinct (map snd ps)"
    by (simp add: tracked_def)
  ultimately show ?thesis
    using assms(1) tracked_subset [of s ps ps s'] by blast
qed

text \<open>
  C3. Two records store the live block \<open>10\<close>, and \<^verbatim>\<open>realloc\<close> moves the block to
  \<open>20\<close>. \<open>mm_realloc\<close> writes the new address into the first record only: the second
  still stores \<open>10\<close>, and \<open>mm_find_in_list\<close> for the old address returns its node \<open>3\<close>.
\<close>

theorem mm_realloc_leaves_second_record:
  "registry \<lparr>heap = [1 \<mapsto> Manager \<lparr>head = 2\<rparr>, 2 \<mapsto> Node \<lparr>addr = 10, next = 3\<rparr>,
                      3 \<mapsto> Node \<lparr>addr = 10, next = NULL\<rparr>, 10 \<mapsto> Block],
              errno = 0, stderr = [], frees = []\<rparr> 1 [(2, 10), (3, 10)] \<and>
   mm_realloc (20, 0) False 10 80 1 ''main.c'' ''main'' 7
     \<lparr>heap = [1 \<mapsto> Manager \<lparr>head = 2\<rparr>, 2 \<mapsto> Node \<lparr>addr = 10, next = 3\<rparr>,
              3 \<mapsto> Node \<lparr>addr = 10, next = NULL\<rparr>, 10 \<mapsto> Block],
      errno = 0, stderr = [], frees = []\<rparr> =
     Some (20, \<lparr>heap = [1 \<mapsto> Manager \<lparr>head = 2\<rparr>, 2 \<mapsto> Node \<lparr>addr = 20, next = 3\<rparr>,
                       3 \<mapsto> Node \<lparr>addr = 10, next = NULL\<rparr>, 20 \<mapsto> Block],
                errno = 0, stderr = [], frees = []\<rparr>) \<and>
   registry \<lparr>heap = [1 \<mapsto> Manager \<lparr>head = 2\<rparr>, 2 \<mapsto> Node \<lparr>addr = 20, next = 3\<rparr>,
                      3 \<mapsto> Node \<lparr>addr = 10, next = NULL\<rparr>, 20 \<mapsto> Block],
              errno = 0, stderr = [], frees = []\<rparr> 1 [(2, 20), (3, 10)] \<and>
   mm_find_in_list 1 10
     \<lparr>heap = [1 \<mapsto> Manager \<lparr>head = 2\<rparr>, 2 \<mapsto> Node \<lparr>addr = 20, next = 3\<rparr>,
              3 \<mapsto> Node \<lparr>addr = 10, next = NULL\<rparr>, 20 \<mapsto> Block],
      errno = 0, stderr = [], frees = []\<rparr> = Some 3"
proof -
  let ?s = "\<lparr>heap = [1 \<mapsto> Manager \<lparr>head = 2\<rparr>, 2 \<mapsto> Node \<lparr>addr = 10, next = 3\<rparr>,
                    3 \<mapsto> Node \<lparr>addr = 10, next = NULL\<rparr>, 10 \<mapsto> Block],
             errno = 0::c_int, stderr = [], frees = []\<rparr>"
  let ?s' = "\<lparr>heap = [1 \<mapsto> Manager \<lparr>head = 2\<rparr>, 2 \<mapsto> Node \<lparr>addr = 20, next = 3\<rparr>,
                     3 \<mapsto> Node \<lparr>addr = 10, next = NULL\<rparr>, 20 \<mapsto> Block],
              errno = 0::c_int, stderr = [], frees = []\<rparr>"
  have reg: "registry ?s 1 [(2, 10), (3, 10)]"
    by (simp add: registry_def manager_at_def list_at_Cons)
  have "mm_find_loop 10 2 (?s\<lparr>heap := (heap ?s)(10 := None, 20 \<mapsto> Block)\<rparr>) = Some 2"
    by (subst mm_find_loop.simps) (simp add: node_at_def)
  then have run: "mm_realloc (20, 0) False 10 80 1 ''main.c'' ''main'' 7 ?s = Some (20, ?s')"
    by (simp add: mm_realloc_def realloc_def mm_find_in_list_def manager_at_def node_at_def
        store_def fun_eq_iff)
  have reg': "registry ?s' 1 [(2, 20), (3, 10)]"
    by (simp add: registry_def manager_at_def list_at_Cons)
  have "mm_find_loop 10 3 ?s' = Some 3"
    by (subst mm_find_loop.simps) (simp add: node_at_def)
  then have "mm_find_loop 10 2 ?s' = Some 3"
    by (subst mm_find_loop.simps) (simp add: node_at_def)
  then have "mm_find_in_list 1 10 ?s' = Some 3"
    by (simp add: mm_find_in_list_def manager_at_def)
  with reg run reg' show ?thesis by simp
qed

text \<open>
  C3, for a block stored once. \<open>p\<close> is null or a live block, and \<^verbatim>\<open>realloc\<close> answers
  with a fresh address \<open>r\<close> (the block has moved). If exactly one record, \<open>(n, p)\<close>,
  stores \<open>p\<close>, \<open>mm_realloc\<close> returns \<open>r\<close> and the same node \<open>n\<close> now stores \<open>r\<close>: the
  records are otherwise the same and as many, \<open>mm_find_in_list\<close> finds a record for
  \<open>r\<close> (the node \<open>n\<close>, unless an earlier record stored that address already) and
  nothing for \<open>p\<close>. If no record stores \<open>p\<close>, \<open>mm_realloc\<close> returns \<open>r\<close> all the
  same, the records are as they were, and nothing is printed. In both cases stored
  addresses that were live, pairwise different blocks before still are, and then \<open>r\<close>
  is stored in the record \<open>n\<close> alone, or in no record.
\<close>

theorem mm_realloc_retargets_the_only_record:
  assumes "registry s m ps" and "p = NULL \<or> heap s p = Some Block"
    and "r \<noteq> NULL" and "r \<noteq> p" and "heap s r = None"
  shows "(\<forall>xs n ys. ps = xs @ (n, p) # ys \<and> p \<notin> snd ` set xs \<and> p \<notin> snd ` set ys \<and> p \<noteq> NULL \<longrightarrow>
            (\<exists>s'. mm_realloc (r, e) d p sz m file func line s = Some (r, s') \<and>
                  registry s' m (xs @ (n, r) # ys) \<and>
                  length (xs @ (n, r) # ys) = length ps \<and>
                  (\<exists>k. k \<noteq> NULL \<and> mm_find_in_list m r s' = Some k) \<and>
                  (r \<notin> snd ` set xs \<longrightarrow> mm_find_in_list m r s' = Some n) \<and>
                  mm_find_in_list m p s' = Some NULL \<and>
                  stderr s' = stderr s \<and> frees s' = frees s \<and>
                  (tracked s ps \<longrightarrow>
                     tracked s' (xs @ (n, r) # ys) \<and> mm_find_in_list m r s' = Some n))) \<and>
         (p \<notin> snd ` set ps \<longrightarrow>
            (\<exists>s'. mm_realloc (r, e) d p sz m file func line s = Some (r, s') \<and>
                  registry s' m ps \<and> heap s' r = Some Block \<and>
                  stderr s' = stderr s \<and> frees s' = frees s \<and>
                  (r \<notin> snd ` set ps \<longrightarrow> mm_find_in_list m r s' = Some NULL) \<and>
                  (tracked s ps \<longrightarrow> tracked s' ps \<and> mm_find_in_list m r s' = Some NULL)))"
proof (intro conjI impI allI)
  fix xs n ys
  assume h: "ps = xs @ (n, p) # ys \<and> p \<notin> snd ` set xs \<and> p \<notin> snd ` set ys \<and> p \<noteq> NULL"
  then have ps: "ps = xs @ (n, p) # ys" and first: "p \<notin> snd ` set xs"
    and rest: "p \<notin> snd ` set ys" and p: "p \<noteq> NULL"
    by auto
  from p assms(2) have blk: "heap s p = Some Block" by simp
  from assms(1) ps have reg: "registry s m (xs @ (n, p) # ys)" by simp
  from mm_realloc_retargets [OF reg first p blk assms(3-5)]
  obtain s' where run: "mm_realloc (r, e) d p sz m file func line s = Some (r, s')"
    and reg': "registry s' m (xs @ (n, r) # ys)"
    and fields: "stderr s' = stderr s" "frees s' = frees s"
    and rblk: "heap s' r = Some Block"
    and frame: "\<forall>x. x \<noteq> p \<longrightarrow> x \<noteq> r \<longrightarrow> x \<noteq> n \<longrightarrow> heap s' x = heap s x"
    by blast
  from reg obtain mg :: memory_manager
    where lst: "list_at (heap s) (head mg) (xs @ (n, p) # ys)"
    using registry_manager by blast
  from list_at_split [OF lst] obtain q where hn: "heap s n = Some (Node \<lparr>addr = p, next = q\<rparr>)"
    by auto
  have "r \<in> snd ` set (xs @ (n, r) # ys)" by simp
  with reg' have some: "\<exists>k. k \<noteq> NULL \<and> mm_find_in_list m r s' = Some k"
    using mm_find_in_list_member by blast
  have new: "mm_find_in_list m r s' = Some n" if "r \<notin> snd ` set xs"
    using reg' that by (rule mm_find_in_list_first)
  have "p \<notin> snd ` set (xs @ (n, r) # ys)"
    using first rest assms(4) by auto
  with reg' have old: "mm_find_in_list m p s' = Some NULL"
    by (rule mm_find_in_list_absent)
  have keeps: "tracked s' (xs @ (n, r) # ys) \<and> mm_find_in_list m r s' = Some n"
    if trk: "tracked s ps"
  proof -
    from trk ps have d: "distinct (map snd (xs @ ys))"
      by (auto simp: tracked_def)
    have sub: "set (xs @ ys) \<subseteq> set ps" using ps by auto
    have same: "\<forall>a \<in> snd ` set (xs @ ys). heap s a = heap s a" by simp
    have t0: "tracked s (xs @ ys)"
      using trk sub d same by (rule tracked_subset)
    have rnew: "r \<notin> snd ` set ps"
      using trk by (rule tracked_not_node) (simp add: assms(5))
    have out: "\<forall>a \<in> snd ` set (xs @ ys). a \<notin> {p, r, n}"
    proof
      fix a
      assume a: "a \<in> snd ` set (xs @ ys)"
      then obtain k where "(k, a) \<in> set (xs @ ys)" by fastforce
      with t0 have "heap s a = Some Block"
        using tracked_member by blast
      with hn assms(5) have "a \<noteq> n" "a \<noteq> r" by auto
      moreover have "a \<noteq> p" using a first rest by auto
      ultimately show "a \<notin> {p, r, n}" by simp
    qed
    have fr: "\<forall>x. x \<notin> {p, r, n} \<longrightarrow> heap s' x = heap s x"
      using frame by simp
    have "tracked s' (xs @ ys)"
      using t0 out fr by (rule tracked_frame)
    with rblk assms(3) rnew ps have "tracked s' (xs @ (n, r) # ys)"
      by (auto simp: tracked_def)
    moreover from rnew ps have "r \<notin> snd ` set xs" by auto
    ultimately show ?thesis using new by simp
  qed
  show "\<exists>s'. mm_realloc (r, e) d p sz m file func line s = Some (r, s') \<and>
      registry s' m (xs @ (n, r) # ys) \<and>
      length (xs @ (n, r) # ys) = length ps \<and>
      (\<exists>k. k \<noteq> NULL \<and> mm_find_in_list m r s' = Some k) \<and>
      (r \<notin> snd ` set xs \<longrightarrow> mm_find_in_list m r s' = Some n) \<and>
      mm_find_in_list m p s' = Some NULL \<and>
      stderr s' = stderr s \<and> frees s' = frees s \<and>
      (tracked s ps \<longrightarrow> tracked s' (xs @ (n, r) # ys) \<and> mm_find_in_list m r s' = Some n)"
  proof (intro exI [of _ s'] conjI impI)
    show "length (xs @ (n, r) # ys) = length ps" by (simp add: ps)
  qed (use run reg' some new old fields keeps in simp_all)
next
  assume absent: "p \<notin> snd ` set ps"
  from mm_realloc_untracked [OF assms(1) absent assms(2-5)]
  obtain s' where run: "mm_realloc (r, e) d p sz m file func line s = Some (r, s')"
    and reg': "registry s' m ps" and blk: "heap s' r = Some Block"
    and fields: "stderr s' = stderr s" "frees s' = frees s"
    and frame: "\<forall>x. x \<noteq> p \<longrightarrow> x \<noteq> r \<longrightarrow> heap s' x = heap s x"
    by blast
  have none: "mm_find_in_list m r s' = Some NULL" if "r \<notin> snd ` set ps"
    using reg' that by (rule mm_find_in_list_absent)
  have keeps: "tracked s' ps \<and> mm_find_in_list m r s' = Some NULL" if trk: "tracked s ps"
  proof -
    have rnew: "r \<notin> snd ` set ps"
      using trk by (rule tracked_not_node) (simp add: assms(5))
    then have out: "\<forall>a \<in> snd ` set ps. a \<notin> {p, r}"
      using absent by auto
    have fr: "\<forall>x. x \<notin> {p, r} \<longrightarrow> heap s' x = heap s x"
      using frame by simp
    have "tracked s' ps"
      using trk out fr by (rule tracked_frame)
    with none rnew show ?thesis by simp
  qed
  show "\<exists>s'. mm_realloc (r, e) d p sz m file func line s = Some (r, s') \<and>
      registry s' m ps \<and> heap s' r = Some Block \<and>
      stderr s' = stderr s \<and> frees s' = frees s \<and>
      (r \<notin> snd ` set ps \<longrightarrow> mm_find_in_list m r s' = Some NULL) \<and>
      (tracked s ps \<longrightarrow> tracked s' ps \<and> mm_find_in_list m r s' = Some NULL)"
    by (intro exI [of _ s'] conjI impI) (use run reg' blk fields none keeps in simp_all)
qed

theorem mm_realloc_retargets_the_only_record_witness:
  "registry \<lparr>heap = [1 \<mapsto> Manager \<lparr>head = 2\<rparr>, 2 \<mapsto> Node \<lparr>addr = 10, next = 3\<rparr>,
                      3 \<mapsto> Node \<lparr>addr = 11, next = NULL\<rparr>, 10 \<mapsto> Block, 11 \<mapsto> Block,
                      12 \<mapsto> Block],
              errno = 0, stderr = [], frees = []\<rparr> 1 [(2, 10), (3, 11)] \<and>
   tracked \<lparr>heap = [1 \<mapsto> Manager \<lparr>head = 2\<rparr>, 2 \<mapsto> Node \<lparr>addr = 10, next = 3\<rparr>,
                     3 \<mapsto> Node \<lparr>addr = 11, next = NULL\<rparr>, 10 \<mapsto> Block, 11 \<mapsto> Block,
                     12 \<mapsto> Block],
             errno = 0, stderr = [], frees = []\<rparr> [(2, 10), (3, 11)] \<and>
   (\<exists>s'. mm_realloc (20, 0) False 11 80 1 ''main.c'' ''main'' 7
           \<lparr>heap = [1 \<mapsto> Manager \<lparr>head = 2\<rparr>, 2 \<mapsto> Node \<lparr>addr = 10, next = 3\<rparr>,
                    3 \<mapsto> Node \<lparr>addr = 11, next = NULL\<rparr>, 10 \<mapsto> Block, 11 \<mapsto> Block,
                    12 \<mapsto> Block],
            errno = 0, stderr = [], frees = []\<rparr> = Some (20, s') \<and>
         registry s' 1 [(2, 10), (3, 20)] \<and> tracked s' [(2, 10), (3, 20)] \<and>
         mm_find_in_list 1 20 s' = Some 3 \<and> mm_find_in_list 1 11 s' = Some NULL \<and>
         stderr s' = []) \<and>
   (\<exists>s'. mm_realloc (20, 0) False 12 80 1 ''main.c'' ''main'' 7
           \<lparr>heap = [1 \<mapsto> Manager \<lparr>head = 2\<rparr>, 2 \<mapsto> Node \<lparr>addr = 10, next = 3\<rparr>,
                    3 \<mapsto> Node \<lparr>addr = 11, next = NULL\<rparr>, 10 \<mapsto> Block, 11 \<mapsto> Block,
                    12 \<mapsto> Block],
            errno = 0, stderr = [], frees = []\<rparr> = Some (20, s') \<and>
         registry s' 1 [(2, 10), (3, 11)] \<and>
         mm_find_in_list 1 20 s' = Some NULL \<and> stderr s' = [])"
proof -
  let ?s = "\<lparr>heap = [1 \<mapsto> Manager \<lparr>head = 2\<rparr>, 2 \<mapsto> Node \<lparr>addr = 10, next = 3\<rparr>,
                    3 \<mapsto> Node \<lparr>addr = 11, next = NULL\<rparr>, 10 \<mapsto> Block, 11 \<mapsto> Block,
                    12 \<mapsto> Block],
             errno = 0::c_int, stderr = [], frees = []\<rparr>"
  have reg: "registry ?s 1 [(2, 10), (3, 11)]"
    by (simp add: registry_def manager_at_def list_at_Cons)
  have trk: "tracked ?s [(2, 10), (3, 11)]"
    by (simp add: tracked_def)
  have p1: "(11::nat) = NULL \<or> heap ?s 11 = Some Block" by simp
  have p2: "(12::nat) = NULL \<or> heap ?s 12 = Some Block" by simp
  have r: "(20::nat) \<noteq> NULL" "(20::nat) \<noteq> 11" "(20::nat) \<noteq> 12" "heap ?s 20 = None"
    by simp_all
  have "[(2::nat, 10::nat), (3, 11)] = [(2, 10)] @ (3, 11) # [] \<and>
        11 \<notin> snd ` set [(2::nat, 10::nat)] \<and> 11 \<notin> snd ` set ([] :: (nat \<times> nat) list) \<and>
        (11::nat) \<noteq> NULL \<longrightarrow>
      (\<exists>s'. mm_realloc (20, 0) False 11 80 1 ''main.c'' ''main'' 7 ?s = Some (20, s') \<and>
            registry s' 1 ([(2, 10)] @ (3, 20) # []) \<and>
            length ([(2::nat, 10::nat)] @ (3, 20) # []) = length [(2::nat, 10::nat), (3, 11)] \<and>
            (\<exists>k. k \<noteq> NULL \<and> mm_find_in_list 1 20 s' = Some k) \<and>
            (20 \<notin> snd ` set [(2::nat, 10::nat)] \<longrightarrow> mm_find_in_list 1 20 s' = Some 3) \<and>
            mm_find_in_list 1 11 s' = Some NULL \<and>
            stderr s' = stderr ?s \<and> frees s' = frees ?s \<and>
            (tracked ?s [(2, 10), (3, 11)] \<longrightarrow>
               tracked s' ([(2, 10)] @ (3, 20) # []) \<and> mm_find_in_list 1 20 s' = Some 3))"
    using mm_realloc_retargets_the_only_record
      [OF reg p1 r(1,2,4), of 0 False 80 "''main.c''" "''main''" 7]
    by blast
  moreover have "12 \<notin> snd ` set [(2::nat, 10::nat), (3, 11)] \<longrightarrow>
      (\<exists>s'. mm_realloc (20, 0) False 12 80 1 ''main.c'' ''main'' 7 ?s = Some (20, s') \<and>
            registry s' 1 [(2, 10), (3, 11)] \<and> heap s' 20 = Some Block \<and>
            stderr s' = stderr ?s \<and> frees s' = frees ?s \<and>
            (20 \<notin> snd ` set [(2::nat, 10::nat), (3, 11)] \<longrightarrow>
               mm_find_in_list 1 20 s' = Some NULL) \<and>
            (tracked ?s [(2, 10), (3, 11)] \<longrightarrow>
               tracked s' [(2, 10), (3, 11)] \<and> mm_find_in_list 1 20 s' = Some NULL))"
    using mm_realloc_retargets_the_only_record
      [OF reg p2 r(1,3,4), of 0 False 80 "''main.c''" "''main''" 7]
    by blast
  ultimately show ?thesis
    using reg trk by auto
qed

text \<open>
  C4. The live block \<open>p\<close> is stored in a record of the registry and \<^verbatim>\<open>realloc\<close>
  returns null. \<open>mm_realloc\<close> returns null; the registry holds the records it held, with
  the addresses they stored; nothing has been passed to \<^verbatim>\<open>free\<close>; \<open>alloc_err\<close> has
  printed one line, with the caller's file, function and line and the error code that
  \<^verbatim>\<open>realloc\<close> left in \<^verbatim>\<open>errno\<close>. The heap is what it was, and \<open>p\<close> still a live block,
  except when the size asked for is 0 and the implementation's \<^verbatim>\<open>realloc\<close> deallocates
  on a null result: then \<open>p\<close>, and nothing else, has left the heap.
\<close>

theorem mm_realloc_failure_keeps_registry:
  assumes "registry s m ps" and "(n, p) \<in> set ps" and "p \<noteq> NULL" and "heap s p = Some Block"
  shows "\<exists>s'. mm_realloc (NULL, e) d p sz m file func line s = Some (NULL, s') \<and>
           registry s' m ps \<and> frees s' = frees s \<and>
           heap s' = (if sz = 0 \<and> d then (heap s)(p := None) else heap s) \<and>
           errno s' = e \<and> stderr s' = stderr s @ [(file, func, line, e)]"
proof -
  define s' where "s' = s\<lparr>heap := (if sz = 0 \<and> d then (heap s)(p := None) else heap s),
                         errno := e, stderr := stderr s @ [(file, func, line, e)]\<rparr>"
  have "realloc (NULL, e) d p sz s =
      Some (NULL, s\<lparr>heap := (if sz = 0 \<and> d then (heap s)(p := None) else heap s), errno := e\<rparr>)"
    using assms(3,4) by (rule realloc_fails)
  then have run: "mm_realloc (NULL, e) d p sz m file func line s = Some (NULL, s')"
    by (simp add: mm_realloc_def alloc_err_def s'_def)
  from assms(1) obtain mg where mg: "heap s m = Some (Manager mg)"
    and lst: "list_at (heap s) (head mg) ps"
    using registry_manager by blast
  have "p \<notin> fst ` set ps"
    using lst by (rule list_at_not_node) (simp add: assms(4))
  moreover have "p \<noteq> m" using mg assms(4) by auto
  ultimately have "registry (s\<lparr>heap := (heap s)(p := None)\<rparr>) m ps"
    by (intro registry_frame [OF assms(1)]) auto
  moreover have "heap s' = (if sz = 0 \<and> d then heap (s\<lparr>heap := (heap s)(p := None)\<rparr>) else heap s)"
    by (simp add: s'_def)
  ultimately have "registry s' m ps"
    using assms(1) registry_heap_only [of s' s m ps]
      registry_heap_only [of s' "s\<lparr>heap := (heap s)(p := None)\<rparr>" m ps]
    by (cases "sz = 0 \<and> d") simp_all
  moreover have "frees s' = frees s" "errno s' = e"
    "stderr s' = stderr s @ [(file, func, line, e)]"
    "heap s' = (if sz = 0 \<and> d then (heap s)(p := None) else heap s)"
    by (simp_all add: s'_def)
  ultimately show ?thesis
    using run by blast
qed

theorem mm_realloc_failure_keeps_registry_witness:
  "registry \<lparr>heap = [1 \<mapsto> Manager \<lparr>head = 2\<rparr>, 2 \<mapsto> Node \<lparr>addr = 10, next = NULL\<rparr>, 10 \<mapsto> Block],
              errno = 0, stderr = [], frees = []\<rparr> 1 [(2, 10)] \<and>
   (\<exists>s'. mm_realloc (NULL, 12) True 10 80 1 ''main.c'' ''main'' 7
           \<lparr>heap = [1 \<mapsto> Manager \<lparr>head = 2\<rparr>, 2 \<mapsto> Node \<lparr>addr = 10, next = NULL\<rparr>, 10 \<mapsto> Block],
            errno = 0, stderr = [], frees = []\<rparr> = Some (NULL, s') \<and>
         registry s' 1 [(2, 10)] \<and> heap s' 10 = Some Block \<and> frees s' = [] \<and>
         stderr s' = [(''main.c'', ''main'', 7, 12)]) \<and>
   (\<exists>s'. mm_realloc (NULL, 0) True 10 0 1 ''main.c'' ''main'' 7
           \<lparr>heap = [1 \<mapsto> Manager \<lparr>head = 2\<rparr>, 2 \<mapsto> Node \<lparr>addr = 10, next = NULL\<rparr>, 10 \<mapsto> Block],
            errno = 0, stderr = [], frees = []\<rparr> = Some (NULL, s') \<and>
         registry s' 1 [(2, 10)] \<and> heap s' 10 = None \<and> frees s' = [] \<and>
         stderr s' = [(''main.c'', ''main'', 7, 0)])"
proof -
  let ?s = "\<lparr>heap = [1 \<mapsto> Manager \<lparr>head = 2\<rparr>, 2 \<mapsto> Node \<lparr>addr = 10, next = NULL\<rparr>, 10 \<mapsto> Block],
             errno = 0::c_int, stderr = [], frees = []\<rparr>"
  have reg: "registry ?s 1 [(2, 10)]"
    by (simp add: registry_def manager_at_def list_at_Cons)
  have mem: "(2::nat, 10::nat) \<in> set [(2, 10)]" by simp
  have p: "(10::nat) \<noteq> NULL" "heap ?s 10 = Some Block" by simp_all
  show ?thesis
    using mm_realloc_failure_keeps_registry [OF reg mem p, of 12 True 80 "''main.c''" "''main''" 7]
      mm_realloc_failure_keeps_registry [OF reg mem p, of 0 True 0 "''main.c''" "''main''" 7]
      reg
    by auto
qed

section \<open>Allocation\<close>

lemma registry_alloc:
  assumes "registry s m ps" and "heap s r = None"
  shows "registry (s\<lparr>heap := (heap s)(r \<mapsto> ob)\<rparr>) m ps"
proof -
  from assms(1) obtain mg where mg: "heap s m = Some (Manager mg)"
    and lst: "list_at (heap s) (head mg) ps"
    using registry_manager by blast
  have "r \<noteq> m" using mg assms(2) by auto
  moreover have "r \<notin> fst ` set ps"
    using lst assms(2) by (rule list_at_nodes_live)
  ultimately show ?thesis
    using assms(1) by (intro registry_frame [OF assms(1)]) auto
qed

text \<open>
  C5. When the allocator returns null, \<open>mm_malloc\<close> and \<open>mm_calloc\<close> return null and
  the state differs from the one before only in \<^verbatim>\<open>errno\<close>, which holds the error code
  the allocator left, and in one more line on the error stream: the one call of
  \<open>alloc_err\<close>, with the caller's file, function and line and that error code. The
  heap, and with it any registry, is unchanged, whether a manager was passed or not. With
  no manager and an allocation that succeeds, the new block is the only change, and
  whatever was a registry before the call still is one, with the same records.
\<close>

theorem alloc_failure_is_reported_once:
  "mm_malloc (NULL, e) a2 sz m file func line s =
     Some (NULL, s\<lparr>errno := e, stderr := stderr s @ [(file, func, line, e)]\<rparr>) \<and>
   mm_calloc (NULL, e) a2 count sz m file func line s =
     Some (NULL, s\<lparr>errno := e, stderr := stderr s @ [(file, func, line, e)]\<rparr>) \<and>
   (registry s m' ps \<longrightarrow>
      registry (s\<lparr>errno := e, stderr := stderr s @ [(file, func, line, e)]\<rparr>) m' ps) \<and>
   (r \<noteq> NULL \<and> heap s r = None \<longrightarrow>
      mm_malloc (r, e) a2 sz NULL file func line s = Some (r, s\<lparr>heap := (heap s)(r \<mapsto> Block)\<rparr>) \<and>
      mm_calloc (r, e) a2 count sz NULL file func line s = Some (r, s\<lparr>heap := (heap s)(r \<mapsto> Block)\<rparr>) \<and>
      (registry s m' ps \<longrightarrow> registry (s\<lparr>heap := (heap s)(r \<mapsto> Block)\<rparr>) m' ps))"
proof (intro conjI impI)
  show "mm_malloc (NULL, e) a2 sz m file func line s =
      Some (NULL, s\<lparr>errno := e, stderr := stderr s @ [(file, func, line, e)]\<rparr>)"
    by (simp add: mm_malloc_def malloc_def alloc_err_def)
  show "mm_calloc (NULL, e) a2 count sz m file func line s =
      Some (NULL, s\<lparr>errno := e, stderr := stderr s @ [(file, func, line, e)]\<rparr>)"
    by (simp add: mm_calloc_def calloc_def alloc_err_def)
next
  assume "registry s m' ps"
  moreover have "heap (s\<lparr>errno := e, stderr := stderr s @ [(file, func, line, e)]\<rparr>) = heap s"
    by simp
  ultimately show "registry (s\<lparr>errno := e, stderr := stderr s @ [(file, func, line, e)]\<rparr>) m' ps"
    using registry_heap_only by blast
next
  assume r: "r \<noteq> NULL \<and> heap s r = None"
  then show "mm_malloc (r, e) a2 sz NULL file func line s =
      Some (r, s\<lparr>heap := (heap s)(r \<mapsto> Block)\<rparr>)"
    by (simp add: mm_malloc_def malloc_def)
  from r show "mm_calloc (r, e) a2 count sz NULL file func line s =
      Some (r, s\<lparr>heap := (heap s)(r \<mapsto> Block)\<rparr>)"
    by (simp add: mm_calloc_def calloc_def)
  assume "registry s m' ps"
  with r show "registry (s\<lparr>heap := (heap s)(r \<mapsto> Block)\<rparr>) m' ps"
    by (simp add: registry_alloc)
qed

theorem alloc_failure_is_reported_once_witness:
  "registry \<lparr>heap = [1 \<mapsto> Manager \<lparr>head = 2\<rparr>, 2 \<mapsto> Node \<lparr>addr = 10, next = NULL\<rparr>, 10 \<mapsto> Block],
              errno = 0, stderr = [], frees = []\<rparr> 1 [(2, 10)] \<and>
   mm_malloc (NULL, 12) (3, 0) 4 1 ''main.c'' ''main'' 7
     \<lparr>heap = [1 \<mapsto> Manager \<lparr>head = 2\<rparr>, 2 \<mapsto> Node \<lparr>addr = 10, next = NULL\<rparr>, 10 \<mapsto> Block],
      errno = 0, stderr = [], frees = []\<rparr> =
     Some (NULL,
       \<lparr>heap = [1 \<mapsto> Manager \<lparr>head = 2\<rparr>, 2 \<mapsto> Node \<lparr>addr = 10, next = NULL\<rparr>, 10 \<mapsto> Block],
        errno = 12, stderr = [(''main.c'', ''main'', 7, 12)], frees = []\<rparr>) \<and>
   registry \<lparr>heap = [1 \<mapsto> Manager \<lparr>head = 2\<rparr>, 2 \<mapsto> Node \<lparr>addr = 10, next = NULL\<rparr>, 10 \<mapsto> Block],
              errno = 12, stderr = [(''main.c'', ''main'', 7, 12)], frees = []\<rparr> 1 [(2, 10)] \<and>
   mm_calloc (20, 0) (3, 0) 10 4 NULL ''main.c'' ''main'' 7
     \<lparr>heap = [1 \<mapsto> Manager \<lparr>head = 2\<rparr>, 2 \<mapsto> Node \<lparr>addr = 10, next = NULL\<rparr>, 10 \<mapsto> Block],
      errno = 0, stderr = [], frees = []\<rparr> =
     Some (20,
       \<lparr>heap = [1 \<mapsto> Manager \<lparr>head = 2\<rparr>, 2 \<mapsto> Node \<lparr>addr = 10, next = NULL\<rparr>, 10 \<mapsto> Block,
                20 \<mapsto> Block],
        errno = 0, stderr = [], frees = []\<rparr>) \<and>
   registry \<lparr>heap = [1 \<mapsto> Manager \<lparr>head = 2\<rparr>, 2 \<mapsto> Node \<lparr>addr = 10, next = NULL\<rparr>, 10 \<mapsto> Block,
                      20 \<mapsto> Block],
              errno = 0, stderr = [], frees = []\<rparr> 1 [(2, 10)]"
proof -
  let ?s = "\<lparr>heap = [1 \<mapsto> Manager \<lparr>head = 2\<rparr>, 2 \<mapsto> Node \<lparr>addr = 10, next = NULL\<rparr>, 10 \<mapsto> Block],
             errno = 0::c_int, stderr = [], frees = []\<rparr>"
  have reg: "registry ?s 1 [(2, 10)]"
    by (simp add: registry_def manager_at_def list_at_Cons)
  have r: "(20::nat) \<noteq> NULL \<and> heap ?s 20 = None"
    by simp
  show ?thesis
    using alloc_failure_is_reported_once
      [of 12 "(3, 0)" 4 1 "''main.c''" "''main''" 7 ?s 10 1 "[(2, 10)]" 20]
      alloc_failure_is_reported_once
      [of 0 "(3, 0)" 4 1 "''main.c''" "''main''" 7 ?s 10 1 "[(2, 10)]" 20] reg r
    by simp
qed



section \<open>Sequences of inserts and repeated addresses\<close>

lemma mm_add_all_ok:
  "registry s m ps \<Longrightarrow>
   list_all (\<lambda>(a, mem). fst a = NULL \<or> heap s (fst a) = None) ins \<Longrightarrow>
   distinct (filter (\<lambda>r. r \<noteq> NULL) (map (\<lambda>(a, mem). fst a) ins)) \<Longrightarrow>
   \<exists>s'. mm_add_all ins m s = Some s' \<and>
        registry s' m (ps @ map (\<lambda>(a, mem). (fst a, mem)) (filter (\<lambda>(a, mem). fst a \<noteq> NULL) ins)) \<and>
        stderr s' = stderr s \<and> frees s' = frees s"
proof (induction ins arbitrary: s ps)
  case Nil
  then show ?case by simp
next
  case (Cons x ins)
  obtain r e mem where x: "x = ((r, e), mem)" by (cases x) auto
  show ?case
  proof (cases "r = NULL")
    case True
    define s1 where "s1 = s\<lparr>errno := e\<rparr>"
    have h: "heap s1 = heap s" by (simp add: s1_def)
    have run: "mm_add (r, e) m mem s = Some (NULL, s1)"
      using True by (simp add: mm_add_fail s1_def)
    have "registry s1 m ps"
      using Cons.prems(1) registry_heap_only [OF h] by simp
    moreover have "list_all (\<lambda>(a, mem). fst a = NULL \<or> heap s1 (fst a) = None) ins"
      using Cons.prems(2) by (simp add: h)
    moreover have "distinct (filter (\<lambda>r. r \<noteq> NULL) (map (\<lambda>(a, mem). fst a) ins))"
      using Cons.prems(3) x True by simp
    ultimately obtain s' where "mm_add_all ins m s1 = Some s'"
      and "registry s' m (ps @ map (\<lambda>(a, mem). (fst a, mem)) (filter (\<lambda>(a, mem). fst a \<noteq> NULL) ins))"
      and "stderr s' = stderr s1" "frees s' = frees s1"
      using Cons.IH by blast
    with run x True show ?thesis
      by (simp add: s1_def)
  next
    case False
    from Cons.prems(2) x False have fresh: "heap s r = None"
      by simp
    from mm_add_ok [OF Cons.prems(1) False fresh]
    obtain s1 where run: "mm_add (r, e) m mem s = Some (mem, s1)"
      and reg1: "registry s1 m (ps @ [(r, mem)])"
      and fields: "stderr s1 = stderr s" "frees s1 = frees s"
      and frame: "\<forall>x. x \<noteq> r \<longrightarrow> x \<noteq> m \<longrightarrow> x \<notin> fst ` set ps \<longrightarrow> heap s1 x = heap s x"
      by blast
    from Cons.prems(1) obtain mg where mg: "heap s m = Some (Manager mg)"
      and lst: "list_at (heap s) (head mg) ps"
      using registry_manager by blast
    have dist: "r \<notin> set (filter (\<lambda>r. r \<noteq> NULL) (map (\<lambda>(a, mem). fst a) ins))"
      and dist': "distinct (filter (\<lambda>r. r \<noteq> NULL) (map (\<lambda>(a, mem). fst a) ins))"
      using Cons.prems(3) x False by simp_all
    have "list_all (\<lambda>(a, mem). fst a = NULL \<or> heap s1 (fst a) = None) ins"
      unfolding list_all_iff
    proof (intro ballI)
      fix y
      assume el: "y \<in> set ins"
      obtain r' e' mem' where y: "y = ((r', e'), mem')" by (cases y) auto
      show "case y of (a, mem) \<Rightarrow> fst a = NULL \<or> heap s1 (fst a) = None"
      proof (cases "r' = NULL")
        case True
        with y show ?thesis by simp
      next
        case nz: False
        with Cons.prems(2) x el y have f': "heap s r' = None"
          by (auto simp: list_all_iff)
        have "r' \<in> set (filter (\<lambda>r. r \<noteq> NULL) (map (\<lambda>(a, mem). fst a) ins))"
          using el y nz by force
        with dist have "r' \<noteq> r" by auto
        moreover have "r' \<noteq> m" using mg f' by auto
        moreover have "r' \<notin> fst ` set ps"
          using lst f' by (rule list_at_nodes_live)
        ultimately show ?thesis
          using frame f' y by simp
      qed
    qed
    with reg1 dist' obtain s' where "mm_add_all ins m s1 = Some s'"
      and "registry s' m ((ps @ [(r, mem)]) @
             map (\<lambda>(a, mem). (fst a, mem)) (filter (\<lambda>(a, mem). fst a \<noteq> NULL) ins))"
      and "stderr s' = stderr s1" "frees s' = frees s1"
      using Cons.IH by blast
    with run x False fields show ?thesis
      by simp
  qed
qed

text \<open>
  C9. \<open>mm_add\<close> never compares addresses: inserting the address \<open>10\<close> twice into
  an empty registry gives two records that store \<open>10\<close>. Stored addresses are therefore
  not pairwise different after every sequence of inserts.
\<close>

theorem mm_add_twice_same_address:
  "mm_add_all [((2, 0), 10), ((3, 0), 10)] 1
     \<lparr>heap = [1 \<mapsto> Manager \<lparr>head = NULL\<rparr>], errno = 0, stderr = [], frees = []\<rparr> =
     Some \<lparr>heap = [1 \<mapsto> Manager \<lparr>head = 2\<rparr>, 2 \<mapsto> Node \<lparr>addr = 10, next = 3\<rparr>,
                  3 \<mapsto> Node \<lparr>addr = 10, next = NULL\<rparr>],
           errno = 0, stderr = [], frees = []\<rparr> \<and>
   registry \<lparr>heap = [1 \<mapsto> Manager \<lparr>head = 2\<rparr>, 2 \<mapsto> Node \<lparr>addr = 10, next = 3\<rparr>,
                     3 \<mapsto> Node \<lparr>addr = 10, next = NULL\<rparr>],
              errno = 0, stderr = [], frees = []\<rparr> 1 [(2, 10), (3, 10)] \<and>
   \<not> distinct (map snd [(2::nat, 10::nat), (3, 10)])"
proof -
  let ?s0 = "\<lparr>heap = [1 \<mapsto> Manager \<lparr>head = NULL\<rparr>], errno = 0::c_int, stderr = [], frees = []\<rparr>"
  let ?s1 = "\<lparr>heap = [1 \<mapsto> Manager \<lparr>head = 2\<rparr>, 2 \<mapsto> Node \<lparr>addr = 10, next = NULL\<rparr>],
              errno = 0::c_int, stderr = [], frees = []\<rparr>"
  let ?s2 = "\<lparr>heap = [1 \<mapsto> Manager \<lparr>head = 2\<rparr>, 2 \<mapsto> Node \<lparr>addr = 10, next = 3\<rparr>,
                     3 \<mapsto> Node \<lparr>addr = 10, next = NULL\<rparr>],
              errno = 0::c_int, stderr = [], frees = []\<rparr>"
  have first: "mm_add (2, 0) 1 10 ?s0 = Some (10, ?s1)"
    by (simp add: mm_add_def malloc_def store_def manager_at_def node_at_def fun_eq_iff)
  have "mm_add_loop 2 (store 3 (Node \<lparr>addr = 10, next = NULL\<rparr>) (?s1\<lparr>heap := (heap ?s1)(3 \<mapsto> Block)\<rparr>)) = Some 2"
    by (subst mm_add_loop.simps) (simp add: store_def node_at_def)
  then have second: "mm_add (3, 0) 1 10 ?s1 = Some (10, ?s2)"
    by (simp add: mm_add_def malloc_def store_def manager_at_def node_at_def fun_eq_iff)
  have "registry ?s2 1 [(2, 10), (3, 10)]"
    by (simp add: registry_def manager_at_def list_at_Cons)
  with first second show ?thesis by simp
qed

text \<open>
  C9, for new addresses. The records of the registry store pairwise different addresses,
  and the addresses inserted are pairwise different and none of them is stored yet. Then every
  insert of the sequence returns, the registry holds the old records followed by one
  record for each insert whose node could be allocated, in the order of the inserts, and
  no two records store the same address.
\<close>

theorem inserts_of_new_addresses_stay_distinct:
  assumes "registry s m ps" and "distinct (map snd ps)"
    and "list_all (\<lambda>(a, mem). fst a = NULL \<or> heap s (fst a) = None) ins"
    and "distinct (filter (\<lambda>r. r \<noteq> NULL) (map (\<lambda>(a, mem). fst a) ins))"
    and "distinct (map snd ins)" and "set (map snd ins) \<inter> snd ` set ps = {}"
  shows "\<exists>s'. mm_add_all ins m s = Some s' \<and>
           registry s' m (ps @ map (\<lambda>(a, mem). (fst a, mem)) (filter (\<lambda>(a, mem). fst a \<noteq> NULL) ins)) \<and>
           distinct (map snd (ps @ map (\<lambda>(a, mem). (fst a, mem)) (filter (\<lambda>(a, mem). fst a \<noteq> NULL) ins)))"
proof -
  define new where "new = map (\<lambda>(a, mem). (fst a, mem)) (filter (\<lambda>(a, mem). fst a \<noteq> NULL) ins)"
  have "map snd new = map snd (filter (\<lambda>(a, mem). fst a \<noteq> NULL) ins)"
    by (simp add: new_def case_prod_beta)
  then have sub: "map snd new = filter (\<lambda>mem. True) (map snd (filter (\<lambda>(a, mem). fst a \<noteq> NULL) ins))"
    by simp
  have "distinct (map snd (filter (\<lambda>(a, mem). fst a \<noteq> NULL) ins))"
    using assms(5) by (rule distinct_map_filter)
  with sub have d1: "distinct (map snd new)" by simp
  have "set (map snd new) \<subseteq> set (map snd ins)"
    by (force simp: new_def)
  with assms(6) have d2: "set (map snd ps) \<inter> set (map snd new) = {}"
    unfolding set_map by blast
  from d1 d2 assms(2) have "distinct (map snd (ps @ new))"
    by simp
  moreover from mm_add_all_ok [OF assms(1,3,4)]
  obtain s' where "mm_add_all ins m s = Some s'" "registry s' m (ps @ new)"
    unfolding new_def by blast
  ultimately show ?thesis
    unfolding new_def by blast
qed

theorem inserts_of_new_addresses_stay_distinct_witness:
  "registry \<lparr>heap = [1 \<mapsto> Manager \<lparr>head = 2\<rparr>, 2 \<mapsto> Node \<lparr>addr = 10, next = NULL\<rparr>, 10 \<mapsto> Block],
              errno = 0, stderr = [], frees = []\<rparr> 1 [(2, 10)] \<and>
   (\<exists>s'. mm_add_all [((3, 0), 11), ((NULL, 12), 12), ((4, 0), 13)] 1
           \<lparr>heap = [1 \<mapsto> Manager \<lparr>head = 2\<rparr>, 2 \<mapsto> Node \<lparr>addr = 10, next = NULL\<rparr>, 10 \<mapsto> Block],
            errno = 0, stderr = [], frees = []\<rparr> = Some s' \<and>
         registry s' 1 [(2, 10), (3, 11), (4, 13)]) \<and>
   distinct (map snd [(2::nat, 10::nat), (3, 11), (4, 13)])"
proof -
  let ?s = "\<lparr>heap = [1 \<mapsto> Manager \<lparr>head = 2\<rparr>, 2 \<mapsto> Node \<lparr>addr = 10, next = NULL\<rparr>, 10 \<mapsto> Block],
             errno = 0::c_int, stderr = [], frees = []\<rparr>"
  let ?ins = "[((3, 0), 11), ((NULL, 12), 12), ((4, 0), 13)] :: (answer \<times> ptr) list"
  have reg: "registry ?s 1 [(2, 10)]"
    by (simp add: registry_def manager_at_def list_at_Cons)
  have d: "distinct (map snd [(2::nat, 10::nat)])" by simp
  have fresh: "list_all (\<lambda>(a, mem). fst a = NULL \<or> heap ?s (fst a) = None) ?ins"
    by simp
  have nodes: "distinct (filter (\<lambda>r. r \<noteq> NULL) (map (\<lambda>(a, mem). fst a) ?ins))"
    by simp
  have new: "distinct (map snd ?ins)" "set (map snd ?ins) \<inter> snd ` set [(2::nat, 10::nat)] = {}"
    by simp_all
  show ?thesis
    using inserts_of_new_addresses_stay_distinct [OF reg d fresh nodes new] reg
    by simp
qed

text \<open>
  C10. The registry already holds a record for the live block \<open>a\<close>; \<open>(k, a)\<close> is
  the first one, after the records \<open>xs\<close> and before \<open>ys\<close>. \<open>mm_add\<close> of \<open>a\<close> with a
  node allocation that succeeds returns \<open>a\<close> and appends a second record \<open>(r, a)\<close>.
  After that \<open>mm_find_in_list\<close> returns the node \<open>k\<close> of the first record, and
  \<open>mm_free\<close> unlinks and frees that record only: the record \<open>(r, a)\<close> stays in the
  registry, at its place, and its node stays live.
\<close>

theorem mm_add_has_no_duplicate_check:
  assumes "registry s m (xs @ (k, a) # ys)" and "a \<notin> snd ` set xs"
    and "r \<noteq> NULL" and "heap s r = None"
    and "a \<noteq> NULL" and "heap s a = Some Block"
  shows "\<exists>s1. mm_add (r, e) m a s = Some (a, s1) \<and>
           registry s1 m (xs @ (k, a) # ys @ [(r, a)]) \<and> k \<noteq> r \<and>
           mm_find_in_list m a s1 = Some k \<and>
           (\<exists>s2. mm_free m a s1 = Some (0, s2) \<and>
                 registry s2 m (xs @ ys @ [(r, a)]) \<and>
                 frees s2 = frees s @ [a, k] \<and>
                 heap s2 k = None \<and> heap s2 r = heap s1 r \<and> heap s1 r \<noteq> None)"
proof -
  from mm_add_ok [OF assms(1,3,4)]
  obtain s1 where run: "mm_add (r, e) m a s = Some (a, s1)"
    and reg1: "registry s1 m ((xs @ (k, a) # ys) @ [(r, a)])"
    and fr: "frees s1 = frees s"
    and frame: "\<forall>x. x \<noteq> r \<longrightarrow> x \<noteq> m \<longrightarrow> x \<notin> fst ` set (xs @ (k, a) # ys) \<longrightarrow> heap s1 x = heap s x"
    by blast
  from reg1 have reg1': "registry s1 m (xs @ (k, a) # (ys @ [(r, a)]))"
    by simp
  from assms(1) obtain mg where mg: "heap s m = Some (Manager mg)"
    and lst: "list_at (heap s) (head mg) (xs @ (k, a) # ys)"
    using registry_manager by blast
  have "a \<notin> fst ` set (xs @ (k, a) # ys)"
    using lst by (rule list_at_not_node) (simp add: assms(6))
  moreover have "a \<noteq> m" "a \<noteq> r"
    using mg assms(4,6) by auto
  ultimately have blk1: "heap s1 a = Some Block"
    using frame assms(6) by simp
  from reg1' obtain mg1 :: memory_manager
    where lst1: "list_at (heap s1) (head mg1) (xs @ (k, a) # (ys @ [(r, a)]))"
    using registry_manager by blast
  then have "distinct (map fst (xs @ (k, a) # (ys @ [(r, a)])))"
    by (rule list_at_distinct)
  then have kr: "k \<noteq> r" and rfresh: "r \<notin> fst ` set xs"
    by auto
  have rlive: "heap s1 r \<noteq> None"
    using list_at_member [OF lst1, of r a] by auto
  have found: "mm_find_in_list m a s1 = Some k"
    using reg1' assms(2) by (rule mm_find_in_list_first)
  from mm_free_ok [OF reg1' assms(2,5) blk1]
  obtain s2 where free: "mm_free m a s1 = Some (0, s2)"
    and reg2: "registry s2 m (xs @ ys @ [(r, a)])"
    and log: "frees s2 = frees s1 @ [a, k]" and dead: "heap s2 k = None"
    and frame2: "\<forall>x. x \<noteq> m \<longrightarrow> x \<noteq> a \<longrightarrow> x \<noteq> k \<longrightarrow> x \<notin> fst ` set xs \<longrightarrow> heap s2 x = heap s1 x"
    by blast
  have "r \<noteq> m" using mg assms(4) by auto
  with frame2 kr rfresh \<open>a \<noteq> r\<close> have "heap s2 r = heap s1 r"
    by simp
  with run reg1' kr found free reg2 log fr dead rlive show ?thesis
    by auto
qed

theorem mm_add_has_no_duplicate_check_witness:
  "registry \<lparr>heap = [1 \<mapsto> Manager \<lparr>head = 2\<rparr>, 2 \<mapsto> Node \<lparr>addr = 10, next = NULL\<rparr>, 10 \<mapsto> Block],
              errno = 0, stderr = [], frees = []\<rparr> 1 [(2, 10)] \<and>
   (\<exists>s1. mm_add (3, 0) 1 10
           \<lparr>heap = [1 \<mapsto> Manager \<lparr>head = 2\<rparr>, 2 \<mapsto> Node \<lparr>addr = 10, next = NULL\<rparr>, 10 \<mapsto> Block],
            errno = 0, stderr = [], frees = []\<rparr> = Some (10, s1) \<and>
         registry s1 1 [(2, 10), (3, 10)] \<and>
         mm_find_in_list 1 10 s1 = Some 2 \<and>
         (\<exists>s2. mm_free 1 10 s1 = Some (0, s2) \<and> registry s2 1 [(3, 10)] \<and>
               frees s2 = [10, 2]))"
proof -
  let ?s = "\<lparr>heap = [1 \<mapsto> Manager \<lparr>head = 2\<rparr>, 2 \<mapsto> Node \<lparr>addr = 10, next = NULL\<rparr>, 10 \<mapsto> Block],
             errno = 0::c_int, stderr = [], frees = []\<rparr>"
  have reg: "registry ?s 1 ([] @ (2, 10) # [])"
    by (simp add: registry_def manager_at_def list_at_Cons)
  have first: "(10::nat) \<notin> snd ` set ([] :: (nat \<times> nat) list)" by simp
  have r: "(3::nat) \<noteq> NULL" "heap ?s 3 = None" by simp_all
  have a: "(10::nat) \<noteq> NULL" "heap ?s 10 = Some Block" by simp_all
  show ?thesis
    using mm_add_has_no_duplicate_check [OF reg first r a, of 0] reg
    by auto
qed

section \<open>How the program reaches the invariant\<close>

text \<open>
  The hypotheses \<open>registry\<close> and \<open>tracked\<close> of the theorems above are what the
  program itself sets up: \<open>init_mem_manager\<close> returns an empty registry, and a tracked
  \<open>mm_malloc\<close> or \<open>mm_calloc\<close> whose two allocations succeed appends a record for the
  new block and keeps both.
\<close>

lemma init_mem_manager_empty_registry:
  assumes "r \<noteq> NULL" and "heap s r = None"
  shows "init_mem_manager (r, e) s = Some (r, s\<lparr>heap := (heap s)(r \<mapsto> Manager \<lparr>head = NULL\<rparr>)\<rparr>) \<and>
         registry (s\<lparr>heap := (heap s)(r \<mapsto> Manager \<lparr>head = NULL\<rparr>)\<rparr>) r [] \<and>
         tracked (s\<lparr>heap := (heap s)(r \<mapsto> Manager \<lparr>head = NULL\<rparr>)\<rparr>) []"
  using assms
  by (simp add: init_mem_manager_def malloc_def store_def registry_def manager_at_def tracked_def)

lemma tracked_after_mm_add:
  assumes reg: "registry s m ps" and trk: "tracked s ps"
    and r1: "r1 \<noteq> NULL" "heap s r1 = None" and r2: "r2 \<noteq> NULL" "r2 \<noteq> r1" "heap s r2 = None"
  shows "\<exists>s'. mm_add (r2, e2) m r1 (s\<lparr>heap := (heap s)(r1 \<mapsto> Block)\<rparr>) = Some (r1, s') \<and>
           registry s' m (ps @ [(r2, r1)]) \<and> tracked s' (ps @ [(r2, r1)]) \<and>
           errno s' = errno s \<and> stderr s' = stderr s \<and> frees s' = frees s"
proof -
  define s1 where "s1 = s\<lparr>heap := (heap s)(r1 \<mapsto> Block)\<rparr>"
  from reg obtain mg where mg: "heap s m = Some (Manager mg)"
    and lst: "list_at (heap s) (head mg) ps"
    using registry_manager by blast
  have reg1: "registry s1 m ps"
    unfolding s1_def using reg r1(2) by (rule registry_alloc)
  have fresh: "heap s1 r2 = None"
    using r2 by (simp add: s1_def)
  from mm_add_ok [OF reg1 r2(1) fresh]
  obtain s' where run: "mm_add (r2, e2) m r1 s1 = Some (r1, s')"
    and reg': "registry s' m (ps @ [(r2, r1)])"
    and fields: "errno s' = errno s1" "stderr s' = stderr s1" "frees s' = frees s1"
    and frame: "\<forall>x. x \<noteq> r2 \<longrightarrow> x \<noteq> m \<longrightarrow> x \<notin> fst ` set ps \<longrightarrow> heap s' x = heap s1 x"
    by blast
  have r1m: "r1 \<noteq> m" using mg r1 by auto
  have r1n: "r1 \<notin> fst ` set ps"
    using lst r1(2) by (rule list_at_nodes_live)
  have r1new: "r1 \<notin> snd ` set ps"
    using trk by (rule tracked_not_node) (simp add: r1)
  have blk: "heap s' r1 = Some Block"
    using frame r2(2) r1m r1n by (simp add: s1_def)
  have "\<forall>a \<in> snd ` set ps. heap s' a = heap s a"
  proof
    fix a
    assume a: "a \<in> snd ` set ps"
    then obtain k where "(k, a) \<in> set ps" by fastforce
    with trk have ablk: "heap s a = Some Block"
      using tracked_member by blast
    have "a \<notin> fst ` set ps"
      using lst by (rule list_at_not_node) (simp add: ablk)
    moreover have "a \<noteq> m" "a \<noteq> r2" "a \<noteq> r1"
      using mg ablk r2 r1 by auto
    ultimately show "heap s' a = heap s a"
      using frame by (simp add: s1_def)
  qed
  moreover from trk have "distinct (map snd ps)"
    by (simp add: tracked_def)
  ultimately have "tracked s' ps"
    using trk tracked_subset [of s ps ps s'] by blast
  with blk r1(1) r1new have "tracked s' (ps @ [(r2, r1)])"
    by (auto simp: tracked_def)
  with run reg' fields show ?thesis
    by (auto simp: s1_def)
qed

lemma mm_malloc_tracks:
  assumes reg: "registry s m ps" and trk: "tracked s ps"
    and r1: "r1 \<noteq> NULL" "heap s r1 = None" and r2: "r2 \<noteq> NULL" "r2 \<noteq> r1" "heap s r2 = None"
  shows "\<exists>s'. mm_malloc (r1, e1) (r2, e2) sz m file func line s = Some (r1, s') \<and>
           registry s' m (ps @ [(r2, r1)]) \<and> tracked s' (ps @ [(r2, r1)]) \<and>
           errno s' = errno s \<and> stderr s' = stderr s \<and> frees s' = frees s"
proof -
  from reg obtain mg where mg: "m \<noteq> NULL" "heap s m = Some (Manager mg)"
    using registry_manager by blast
  with r1 have "manager_at (s\<lparr>heap := (heap s)(r1 \<mapsto> Block)\<rparr>) m = Some mg"
    by (auto simp: manager_at_Some)
  moreover from tracked_after_mm_add [OF assms]
  obtain s' where "mm_add (r2, e2) m r1 (s\<lparr>heap := (heap s)(r1 \<mapsto> Block)\<rparr>) = Some (r1, s')"
    and "registry s' m (ps @ [(r2, r1)])" "tracked s' (ps @ [(r2, r1)])"
    and "errno s' = errno s" "stderr s' = stderr s" "frees s' = frees s"
    by blast
  ultimately show ?thesis
    using r1 mg by (simp add: mm_malloc_def malloc_def)
qed

lemma mm_calloc_tracks:
  assumes reg: "registry s m ps" and trk: "tracked s ps"
    and r1: "r1 \<noteq> NULL" "heap s r1 = None" and r2: "r2 \<noteq> NULL" "r2 \<noteq> r1" "heap s r2 = None"
  shows "\<exists>s'. mm_calloc (r1, e1) (r2, e2) count sz m file func line s = Some (r1, s') \<and>
           registry s' m (ps @ [(r2, r1)]) \<and> tracked s' (ps @ [(r2, r1)]) \<and>
           errno s' = errno s \<and> stderr s' = stderr s \<and> frees s' = frees s"
proof -
  from reg obtain mg where mg: "m \<noteq> NULL" "heap s m = Some (Manager mg)"
    using registry_manager by blast
  with r1 have "manager_at (s\<lparr>heap := (heap s)(r1 \<mapsto> Block)\<rparr>) m = Some mg"
    by (auto simp: manager_at_Some)
  moreover from tracked_after_mm_add [OF assms]
  obtain s' where "mm_add (r2, e2) m r1 (s\<lparr>heap := (heap s)(r1 \<mapsto> Block)\<rparr>) = Some (r1, s')"
    and "registry s' m (ps @ [(r2, r1)])" "tracked s' (ps @ [(r2, r1)])"
    and "errno s' = errno s" "stderr s' = stderr s" "frees s' = frees s"
    by blast
  ultimately show ?thesis
    using r1 mg by (simp add: mm_calloc_def calloc_def)
qed

end
